theory Spec2Isabelle
  imports
    Main
    "HOL-Library.Char_ord"
    "HOL-Library.List_Lexorder"
    "HOL-Library.Multiset"
    "HOL-Library.FSet"
    "HOL-Library.Finite_Map"
begin

section \<open>gcompare2.py: comparing gene datasets\<close>

text \<open>
  A shallow embedding of \<^verbatim>\<open>src/gcompare2.py\<close>. Python strings are \<open>string\<close>; the
  input is decoded as ISO-8859-1, so every character of an identifier is one of the 256
  values of \<open>char\<close>, and Python's comparison of strings (by code point, a proper prefix
  first) is the lexicographic order of \<open>HOL-Library.List_Lexorder\<close> over
  \<open>HOL-Library.Char_ord\<close>. A \<^verbatim>\<open>dict\<close> is a finite map, a
  \<^verbatim>\<open>frozenset\<close> of strings a finite set. Every exception the code can raise is a
  value of \<open>error\<close>, and a function that can raise returns \<open>error + 'a\<close>.
\<close>

subsection \<open>Exceptions\<close>

datatype error = TypeError | IndexError | KeyError | StopIteration | AttributeError

text \<open>Running a fallible function over a list, stopping at the first exception.\<close>

fun mapM :: "('a \<Rightarrow> error + 'b) \<Rightarrow> 'a list \<Rightarrow> error + 'b list" where
  "mapM f [] = Inr []"
| "mapM f (x # xs) =
     (case f x of
        Inl e \<Rightarrow> Inl e
      | Inr y \<Rightarrow> (case mapM f xs of Inl e \<Rightarrow> Inl e | Inr ys \<Rightarrow> Inr (y # ys)))"

subsection \<open>The Gene record\<close>

text \<open>
  \<^verbatim>\<open>Gene = collections.namedtuple("Gene", ("id", "iso", "foldcount", "p_value"))\<close>.
  The first selector is \<open>id'\<close>, since \<open>id\<close> is the identity function of HOL. Where a
  parameter or local variable of the source has the name of a field (\<open>genes\<close>,
  \<open>name\<close>, \<open>keep\<close>, ...), the model writes it with a \<open>0\<close> at the end.
\<close>

datatype Gene = Gene (id': string) (iso: string) (foldcount: string) (p_value: string)

definition Gene_fields :: "string list" where
  "Gene_fields = [''id'', ''iso'', ''foldcount'', ''p_value'']"

text \<open>
  \<^verbatim>\<open>Gene(*fields)\<close>: the constructor takes exactly four positional arguments and
  raises \<^verbatim>\<open>TypeError\<close> for any other number.
\<close>

fun Gene_new :: "string list \<Rightarrow> error + Gene" where
  "Gene_new [a, b, c, d] = Inr (Gene a b c d)"
| "Gene_new _ = Inl TypeError"

text \<open>\<^verbatim>\<open>getattr(g, f)\<close> for a field name \<open>f\<close>.\<close>

definition getattr :: "Gene \<Rightarrow> string \<Rightarrow> error + string" where
  "getattr g f =
     (if f = ''id'' then Inr (id' g)
      else if f = ''iso'' then Inr (iso g)
      else if f = ''foldcount'' then Inr (foldcount g)
      else if f = ''p_value'' then Inr (p_value g)
      else Inl AttributeError)"

subsection \<open>sanitize\_id\<close>

text \<open>
  \<^verbatim>\<open>str.split(sep)\<close> for a separator of one character: the fields between the
  separators, empty fields kept; a string without the separator is one field.
\<close>

fun split :: "char \<Rightarrow> string \<Rightarrow> string list" where
  "split sep [] = [[]]"
| "split sep (c # cs) =
     (if c = sep then [] # split sep cs
      else (case split sep cs of [] \<Rightarrow> [[c]] | w # ws \<Rightarrow> (c # w) # ws))"

text \<open>\<^verbatim>\<open>sep.join(words)\<close>.\<close>

fun join :: "string \<Rightarrow> string list \<Rightarrow> string" where
  "join sep [] = []"
| "join sep [w] = w"
| "join sep (w # v # ws) = w @ sep @ join sep (v # ws)"

text \<open>
  \<^verbatim>\<open>
  def sanitize_id(ident):
      id_fields = ident.split("-")
      if id_fields[0] == "tRNA":
          id_fields = id_fields[1:]
      return "-".join(id_fields[:3])
  \<close>
  \<^verbatim>\<open>id_fields[0]\<close> raises \<^verbatim>\<open>IndexError\<close> on an empty list.
\<close>

definition sanitize_id :: "string \<Rightarrow> error + string" where
  "sanitize_id ident =
     (let id_fields = split CHR ''-'' ident in
      case id_fields of
        [] \<Rightarrow> Inl IndexError
      | f0 # rest \<Rightarrow>
          (let id_fields = (if f0 = ''tRNA'' then rest else id_fields)
           in Inr (join ''-'' (take 3 id_fields))))"

subsection \<open>load\_file\<close>

text \<open>
  Opening, decoding and CSV parsing are the work of \<^verbatim>\<open>codecs\<close> and
  \<^verbatim>\<open>csv\<close>; the model starts from the rows \<^verbatim>\<open>csv.reader\<close> yields, each a list
  of strings (an empty line of the file is the empty list).

  The body of the \<^verbatim>\<open>try\<close> block for one row \<open>l\<close>:
  \<^verbatim>\<open>
  fields = l[0 : len(Gene._fields)]
  fields[0] = sanitize_id(fields[0])
  g = Gene(*fields)
  \<close>
  \<^verbatim>\<open>fields[0]\<close> raises \<^verbatim>\<open>IndexError\<close> when the row has no field.
\<close>

definition parse_row :: "string list \<Rightarrow> error + Gene" where
  "parse_row l =
     (let fields = take (length Gene_fields) l in
      case fields of
        [] \<Rightarrow> Inl IndexError
      | f0 # rest \<Rightarrow>
          (case sanitize_id f0 of
             Inl e \<Rightarrow> Inl e
           | Inr s \<Rightarrow> Gene_new (s # rest)))"

text \<open>
  The loop over the rows after the header, with the state \<open>(genes, skipped)\<close>:
  \<^verbatim>\<open>
  for l in reader:
      try:
          ...
          genes[g.id] = g
      except TypeError:
          skipped += 1
  \<close>
  Only \<^verbatim>\<open>TypeError\<close> is caught; any other exception leaves the loop and the function.
\<close>

fun load_rows ::
  "(string, Gene) fmap \<Rightarrow> int \<Rightarrow> string list list \<Rightarrow> error + ((string, Gene) fmap \<times> int)" where
  "load_rows genes skipped [] = Inr (genes, skipped)"
| "load_rows genes skipped (l # ls) =
     (case parse_row l of
        Inr g \<Rightarrow> load_rows (fmupd (id' g) g genes) skipped ls
      | Inl e \<Rightarrow> (if e = TypeError then load_rows genes (skipped + 1) ls else Inl e))"

text \<open>
  \<^verbatim>\<open>next(reader)\<close> skips the header and raises \<^verbatim>\<open>StopIteration\<close> when there is
  no row at all.
\<close>

definition load_file :: "string list list \<Rightarrow> error + ((string, Gene) fmap \<times> int)" where
  "load_file reader =
     (case reader of
        [] \<Rightarrow> Inl StopIteration
      | header # ls \<Rightarrow> load_rows fmempty 0 ls)"

subsection \<open>Dataset\<close>

text \<open>
  \<^verbatim>\<open>Dataset\<close> defines neither \<^verbatim>\<open>__eq__\<close> nor \<^verbatim>\<open>__hash__\<close>, so a set of
  datasets tells its members apart by object identity. \<open>obj_id\<close> is that identity (what
  \<^verbatim>\<open>id(d)\<close> returns); the constructor receives it from the allocator.
\<close>

record Dataset =
  obj_id :: nat
  genes :: "(string, Gene) fmap"
  name :: string
  ids :: "string fset"

definition Dataset_init :: "nat \<Rightarrow> (string, Gene) fmap \<Rightarrow> string \<Rightarrow> Dataset" where
  "Dataset_init a genes0 name0 =
     \<lparr>obj_id = a, genes = genes0, name = name0, ids = fmdom genes0\<rparr>"

subsection \<open>Sets of datasets\<close>

text \<open>
  A Python \<^verbatim>\<open>set\<close> of datasets is the list of its members in the order in which the
  set iterates. That order is fixed by the implementation (from the hashes and the history
  of the hash table), not by the program, so it is a parameter of the model: a
  \<open>set_order\<close> gives, for each operation that builds a set, the rearrangement of the
  members that the new set iterates in.
\<close>

record set_order =
  iter_new :: "Dataset list \<Rightarrow> Dataset list"
  iter_sub :: "Dataset list \<Rightarrow> Dataset list"
  iter_add :: "Dataset list \<Rightarrow> Dataset list"

definition reorders :: "(Dataset list \<Rightarrow> Dataset list) \<Rightarrow> bool" where
  "reorders f \<longleftrightarrow> (\<forall>xs. mset (f xs) = mset xs)"

definition set_order_ok :: "set_order \<Rightarrow> bool" where
  "set_order_ok so \<longleftrightarrow> reorders (iter_new so) \<and> reorders (iter_sub so) \<and> reorders (iter_add so)"

text \<open>The order in which members were inserted, as one possible \<open>set_order\<close>.\<close>

definition insertion_order :: set_order where
  "insertion_order = \<lparr>iter_new = (\<lambda>xs. xs), iter_sub = (\<lambda>xs. xs), iter_add = (\<lambda>xs. xs)\<rparr>"

text \<open>\<^verbatim>\<open>d in s\<close>, by identity.\<close>

definition member :: "Dataset \<Rightarrow> Dataset list \<Rightarrow> bool" where
  "member d s \<longleftrightarrow> obj_id d \<in> obj_id ` set s"

definition insert_member :: "Dataset list \<Rightarrow> Dataset \<Rightarrow> Dataset list" where
  "insert_member s d = (if member d s then s else s @ [d])"

text \<open>\<^verbatim>\<open>set(c)\<close>, \<^verbatim>\<open>a - b\<close> and \<^verbatim>\<open>s.add(d)\<close>.\<close>

definition set_new :: "set_order \<Rightarrow> Dataset list \<Rightarrow> Dataset list" where
  "set_new so c = iter_new so (foldl insert_member [] c)"

definition set_sub :: "set_order \<Rightarrow> Dataset list \<Rightarrow> Dataset list \<Rightarrow> Dataset list" where
  "set_sub so a b = iter_sub so (filter (\<lambda>d. \<not> member d b) a)"

definition set_add :: "set_order \<Rightarrow> Dataset list \<Rightarrow> Dataset \<Rightarrow> Dataset list" where
  "set_add so s d = (if member d s then s else iter_add so (s @ [d]))"

subsection \<open>Objects and references\<close>

text \<open>
  The shapes of the objects as a store holds them, for the programs of the section on the
  store below: a collection object has two references, to its set of datasets and to its
  \<^verbatim>\<open>gene_names\<close>; a \<^verbatim>\<open>DataSlice\<close> object has references to its \<^verbatim>\<open>keep\<close>, its
  \<^verbatim>\<open>exclude\<close> and its collection, and its name and ids; the store maps references to
  sets, dictionaries and collection objects.
\<close>

record CollectionObj =
  datasets_ref :: nat
  gene_names_ref :: nat

record heap =
  next_addr :: nat
  set_at :: "nat \<Rightarrow> Dataset list"
  dict_at :: "nat \<Rightarrow> (string, string) fmap"
  collection_at :: "nat \<Rightarrow> CollectionObj"

record SliceObj =
  keep_ref :: nat
  exclude_ref :: nat
  slice_name :: string
  slice_ids :: "string list"
  collection_ref :: nat

subsection \<open>DatasetCollection and DataSlice\<close>

record DatasetCollection =
  datasets :: "Dataset list"
  gene_names :: "(string, string) fmap"

definition DatasetCollection_init :: DatasetCollection where
  "DatasetCollection_init = \<lparr>datasets = [], gene_names = fmempty\<rparr>"

definition add :: "set_order \<Rightarrow> DatasetCollection \<Rightarrow> Dataset \<Rightarrow> DatasetCollection" where
  "add so self dataset = self\<lparr>datasets := set_add so (datasets self) dataset\<rparr>"

record DataSlice =
  keep :: "Dataset list"
  exclude :: "Dataset list"
  name :: string
  ids :: "string list"
  collection :: DatasetCollection

text \<open>
  \<^verbatim>\<open>
  def _calc_ids(self, keep_datasets, exclude_datasets):
      keep_ids = [d.ids for d in keep_datasets]
      exclude_ids = [d.ids for d in exclude_datasets]
      return sorted(
          list(keep_ids[0].intersection(*keep_ids[1:]).difference(*exclude_ids))
      )
  \<close>
  \<^verbatim>\<open>keep_ids[0]\<close> raises \<^verbatim>\<open>IndexError\<close> when there is no dataset to keep.
  \<^verbatim>\<open>sorted\<close> of a list of distinct strings does not depend on the order of the list.
\<close>

definition calc_ids :: "Dataset list \<Rightarrow> Dataset list \<Rightarrow> error + string list" where
  "calc_ids keep_datasets exclude_datasets =
     (let keep_ids = map Dataset.ids keep_datasets;
          exclude_ids = map Dataset.ids exclude_datasets
      in case keep_ids of
           [] \<Rightarrow> Inl IndexError
         | k0 # ks \<Rightarrow>
             Inr (sorted_list_of_fset
                    (fold (\<lambda>e s. s |-| e) exclude_ids (fold (\<lambda>k s. s |\<inter>| k) ks k0))))"

text \<open>
  \<^verbatim>\<open>
  def __init__(self, keep, exclude, collection):
      self.keep = keep
      self.exclude = exclude
      self.name = "(%s) - (%s)" % (
          " & ".join(d.name for d in keep),
          " | ".join(d.name for d in exclude),
      )
      self.ids = self._calc_ids(keep, exclude)
      self.collection = collection
  \<close>
\<close>

definition DataSlice_init ::
  "Dataset list \<Rightarrow> Dataset list \<Rightarrow> DatasetCollection \<Rightarrow> error + DataSlice" where
  "DataSlice_init keep0 exclude0 collection0 =
     (let name0 = ''('' @ join '' & '' (map Dataset.name keep0) @ '') - (''
                    @ join '' | '' (map Dataset.name exclude0) @ '')''
      in case calc_ids keep0 exclude0 of
           Inl e \<Rightarrow> Inl e
         | Inr ids0 \<Rightarrow>
             Inr \<lparr>keep = keep0, exclude = exclude0, name = name0, ids = ids0,
                  collection = collection0\<rparr>)"

text \<open>
  \<^verbatim>\<open>
  def fields(self):
      fields = list(Gene._fields[0:2])
      for f in Gene._fields[2:]:
          for d in sorted(self.keep, key=lambda d: d.name):
              fields.append("%s %s" % (d.name, f))
      return tuple(fields)
  \<close>
  \<^verbatim>\<open>sorted\<close> with a key is stable, as \<open>sort_key\<close> is.
\<close>

definition fields :: "DataSlice \<Rightarrow> string list" where
  "fields self =
     take 2 Gene_fields
     @ concat (map (\<lambda>f. map (\<lambda>d. Dataset.name d @ '' '' @ f)
                             (sort_key Dataset.name (keep self)))
                   (drop 2 Gene_fields))"

text \<open>
  \<^verbatim>\<open>
  def genes(self):
      for i in self.ids:
          name = self.collection.gene_names.get(i, "")
          values = [i, name]
          for f in Gene._fields[2:]:
              for d in sorted(self.keep, key=lambda d: d.name):
                  values.append(getattr(d.genes[i], f))
          yield tuple(values)
  \<close>
  \<^verbatim>\<open>d.genes[i]\<close> raises \<^verbatim>\<open>KeyError\<close> for a missing key. The result is the list of
  the rows the generator yields when it is consumed to its end.
\<close>

definition gene_row :: "DataSlice \<Rightarrow> string \<Rightarrow> error + string list" where
  "gene_row self i =
     (let name0 = (case fmlookup (gene_names (collection self)) i of
                     None \<Rightarrow> [] | Some n \<Rightarrow> n)
      in case mapM (\<lambda>f. mapM (\<lambda>d. case fmlookup (genes d) i of
                                      None \<Rightarrow> Inl KeyError
                                    | Some g \<Rightarrow> getattr g f)
                               (sort_key Dataset.name (keep self)))
                   (drop 2 Gene_fields) of
           Inl e \<Rightarrow> Inl e
         | Inr values \<Rightarrow> Inr ([i, name0] @ concat values))"

definition DataSlice_genes :: "DataSlice \<Rightarrow> error + string list list" where
  "DataSlice_genes self = mapM (gene_row self) (DataSlice.ids self)"

text \<open>
  \<^verbatim>\<open>itertools.combinations(iterable, r)\<close>: the subsequences of length \<open>r\<close>, in the
  lexicographic order of their positions.
\<close>

fun combinations :: "'a list \<Rightarrow> nat \<Rightarrow> 'a list list" where
  "combinations xs 0 = [[]]"
| "combinations [] (Suc r) = []"
| "combinations (x # xs) (Suc r) = map ((#) x) (combinations xs r) @ combinations xs (Suc r)"

text \<open>
  \<^verbatim>\<open>
  def slices(self):
      for l in range(len(self.datasets)):
          combos = itertools.combinations(self.datasets, l + 1)
          for c in combos:
              keep = set(c)
              exclude = self.datasets - keep
              yield DataSlice(keep, exclude, self)
  \<close>
  The result is the list of the slices the generator yields when it is consumed to its end.
\<close>

definition make_slice :: "set_order \<Rightarrow> DatasetCollection \<Rightarrow> Dataset list \<Rightarrow> error + DataSlice" where
  "make_slice so self c =
     (let keep0 = set_new so c;
          exclude0 = set_sub so (datasets self) keep0
      in DataSlice_init keep0 exclude0 self)"

definition slices :: "set_order \<Rightarrow> DatasetCollection \<Rightarrow> error + DataSlice list" where
  "slices so self =
     mapM (make_slice so self)
          (concat (map (\<lambda>l. combinations (datasets self) (l + 1))
                       [0..<length (datasets self)]))"

subsection \<open>Well-formed objects\<close>

text \<open>
  A dataset is as its constructor leaves it when \<open>ids\<close> is the key set of \<open>genes\<close>; a
  collection is a set when no object occurs in it twice.
\<close>

definition Dataset_ok :: "Dataset \<Rightarrow> bool" where
  "Dataset_ok d \<longleftrightarrow> Dataset.ids d = fmdom (genes d)"

definition is_set :: "Dataset list \<Rightarrow> bool" where
  "is_set s \<longleftrightarrow> distinct (map obj_id s)"

subsection \<open>The objects in a store\<close>

text \<open>
  The functions above take the collection as a value. To say what running them does to
  the objects that exist, the same methods are written once more as programs over a store.
  The store holds the mutable objects the methods touch: the sets of datasets (the
  \<^verbatim>\<open>datasets\<close> of a collection, and every \<^verbatim>\<open>keep\<close> and \<^verbatim>\<open>exclude\<close>), the
  dictionaries \<^verbatim>\<open>gene_names\<close>, and the collection objects, whose two attributes are
  references (the records \<open>CollectionObj\<close>, \<open>heap\<close> and \<open>SliceObj\<close> above).
  \<open>next_addr\<close> is the address the next new set gets. Datasets stay values: nothing in
  the program assigns to a dataset after its constructor.
\<close>

text \<open>
  A program takes the store and returns a result or an exception, and the store it leaves.
  An exception ends the program where it is raised.
\<close>

type_synonym 'a prog = "heap \<Rightarrow> (error + 'a) \<times> heap"

definition return_prog :: "'a \<Rightarrow> 'a prog" where
  "return_prog x h = (Inr x, h)"

definition raise_prog :: "error \<Rightarrow> 'a prog" where
  "raise_prog e h = (Inl e, h)"

definition bind_prog :: "'a prog \<Rightarrow> ('a \<Rightarrow> 'b prog) \<Rightarrow> 'b prog" where
  "bind_prog m f h = (case m h of (Inl e, h') \<Rightarrow> (Inl e, h') | (Inr x, h') \<Rightarrow> f x h')"

text \<open>A \<^verbatim>\<open>for\<close> loop that collects what its body returns.\<close>

fun for_prog :: "('a \<Rightarrow> 'b prog) \<Rightarrow> 'a list \<Rightarrow> 'b list prog" where
  "for_prog body [] = return_prog []"
| "for_prog body (x # xs) =
     bind_prog (body x) (\<lambda>y. bind_prog (for_prog body xs) (\<lambda>ys. return_prog (y # ys)))"

text \<open>
  Reading an object through a reference, and creating a set: the only accesses to the
  store that \<^verbatim>\<open>slices\<close>, \<^verbatim>\<open>genes\<close> and the constructor of \<^verbatim>\<open>DataSlice\<close> make.
  \<^verbatim>\<open>set(c)\<close> and \<^verbatim>\<open>self.datasets - keep\<close> each create a set.
\<close>

definition read_set :: "nat \<Rightarrow> Dataset list prog" where
  "read_set r h = (Inr (set_at h r), h)"

definition read_dict :: "nat \<Rightarrow> (string, string) fmap prog" where
  "read_dict r h = (Inr (dict_at h r), h)"

definition read_collection :: "nat \<Rightarrow> CollectionObj prog" where
  "read_collection r h = (Inr (collection_at h r), h)"

definition new_set :: "Dataset list \<Rightarrow> nat prog" where
  "new_set members h =
     (Inr (next_addr h),
      h\<lparr>next_addr := Suc (next_addr h), set_at := (set_at h)(next_addr h := members)\<rparr>)"

text \<open>
  The constructor of \<^verbatim>\<open>DataSlice\<close> iterates over the two sets it is given (see
  \<open>DataSlice_init\<close> for the source) and stores the references.
\<close>

definition DataSlice_new :: "nat \<Rightarrow> nat \<Rightarrow> nat \<Rightarrow> SliceObj prog" where
  "DataSlice_new keep0 exclude0 collection0 =
     bind_prog (read_set keep0) (\<lambda>kp.
     bind_prog (read_set exclude0) (\<lambda>ex.
       let name0 = ''('' @ join '' & '' (map Dataset.name kp) @ '') - (''
                     @ join '' | '' (map Dataset.name ex) @ '')''
       in case calc_ids kp ex of
            Inl e \<Rightarrow> raise_prog e
          | Inr ids0 \<Rightarrow>
              return_prog \<lparr>keep_ref = keep0, exclude_ref = exclude0, slice_name = name0,
                           slice_ids = ids0, collection_ref = collection0\<rparr>))"

text \<open>
  \<^verbatim>\<open>genes\<close> (see \<open>gene_row\<close> for the source): for each id it reads
  \<^verbatim>\<open>self.collection.gene_names\<close>, and for each payload field it reads \<^verbatim>\<open>self.keep\<close>
  and sorts it.
\<close>

definition gene_row_prog :: "SliceObj \<Rightarrow> string \<Rightarrow> string list prog" where
  "gene_row_prog self i =
     bind_prog (read_collection (collection_ref self)) (\<lambda>c.
     bind_prog (read_dict (gene_names_ref c)) (\<lambda>names.
       let name0 = (case fmlookup names i of None \<Rightarrow> [] | Some n \<Rightarrow> n)
       in bind_prog
            (for_prog (\<lambda>f.
               bind_prog (read_set (keep_ref self)) (\<lambda>kp.
                 for_prog (\<lambda>d. case fmlookup (genes d) i of
                                   None \<Rightarrow> raise_prog KeyError
                                 | Some g \<Rightarrow> (case getattr g f of
                                               Inl e \<Rightarrow> raise_prog e
                                             | Inr v \<Rightarrow> return_prog v))
                          (sort_key Dataset.name kp)))
               (drop 2 Gene_fields))
            (\<lambda>values. return_prog ([i, name0] @ concat values))))"

definition genes_prog :: "SliceObj \<Rightarrow> string list list prog" where
  "genes_prog self = for_prog (gene_row_prog self) (slice_ids self)"

text \<open>
  \<^verbatim>\<open>for s in collection.slices(): body(s)\<close>. The generator runs between the steps of
  its consumer, so the loop takes the consumer's body: \<^verbatim>\<open>len(self.datasets)\<close> is read
  once, \<^verbatim>\<open>self.datasets\<close> is read again when each \<^verbatim>\<open>combinations\<close> object is made
  and for each difference, and the body runs on each slice before the next one is built.
\<close>

definition slices_prog :: "set_order \<Rightarrow> nat \<Rightarrow> (SliceObj \<Rightarrow> 'a prog) \<Rightarrow> 'a list prog" where
  "slices_prog so self body =
     bind_prog (read_collection self) (\<lambda>c0.
     bind_prog (read_set (datasets_ref c0)) (\<lambda>ds0.
     bind_prog
       (for_prog (\<lambda>l.
          bind_prog (read_collection self) (\<lambda>c1.
          bind_prog (read_set (datasets_ref c1)) (\<lambda>pool.
            for_prog (\<lambda>c.
               bind_prog (new_set (set_new so c)) (\<lambda>keep0.
               bind_prog (read_collection self) (\<lambda>c2.
               bind_prog (read_set (datasets_ref c2)) (\<lambda>ds.
               bind_prog (read_set keep0) (\<lambda>kp.
               bind_prog (new_set (set_sub so ds kp)) (\<lambda>exclude0.
               bind_prog (DataSlice_new keep0 exclude0 self) body))))))
              (combinations pool (l + 1)))))
          [0..<length ds0])
       (\<lambda>rs. return_prog (concat rs))))"

text \<open>
  The consumer of \<^verbatim>\<open>TestCalc.test_calc\<close>:
  \<^verbatim>\<open>set(tuple(s.genes()) for s in collection.slices())\<close>.
\<close>

definition consume_prog :: "set_order \<Rightarrow> nat \<Rightarrow> string list list set prog" where
  "consume_prog so collection0 =
     bind_prog (slices_prog so collection0 genes_prog) (\<lambda>values. return_prog (set values))"

text \<open>
  The collection and the slice that a store holds at a reference, as values; and a store
  that has every object of another, unchanged, and maybe more sets.
\<close>

definition abs_collection :: "heap \<Rightarrow> nat \<Rightarrow> DatasetCollection" where
  "abs_collection h r =
     \<lparr>datasets = set_at h (datasets_ref (collection_at h r)),
      gene_names = dict_at h (gene_names_ref (collection_at h r))\<rparr>"

definition abs_slice :: "heap \<Rightarrow> SliceObj \<Rightarrow> DataSlice" where
  "abs_slice h s =
     \<lparr>keep = set_at h (keep_ref s), exclude = set_at h (exclude_ref s),
      name = slice_name s, ids = slice_ids s,
      collection = abs_collection h (collection_ref s)\<rparr>"

definition extends :: "heap \<Rightarrow> heap \<Rightarrow> bool" where
  "extends h h' \<longleftrightarrow>
     next_addr h \<le> next_addr h' \<and> (\<forall>r < next_addr h. set_at h' r = set_at h r) \<and>
     dict_at h' = dict_at h \<and> collection_at h' = collection_at h"

subsection \<open>The fixture of the unit test\<close>

text \<open>
  \<^verbatim>\<open>TestCalc.test_calc\<close> loads \<^verbatim>\<open>test/2/A.csv\<close> and \<^verbatim>\<open>test/2/B.csv\<close>, adds the two
  datasets to a collection and compares the rows of all slices with a fixed set. The two
  files are not among the sources; their rows here are those of the end-to-end scenario of
  the specification, with \<open>iso\<close> in the second column, which no output shows.
  \<open>test_collection_BA\<close> is the same collection with the files loaded in the other
  order, as \<^verbatim>\<open>glob.iglob\<close> may list them.
\<close>

definition test_header :: "string list" where
  "test_header = [''id'', ''iso'', ''foldcount'', ''p_value'']"

definition test_A_rows :: "string list list" where
  "test_A_rows = [test_header,
     [''tRNA-Delta-ABC-1-2'', ''iso'', ''A-Delta-fc'', ''A-Delta-p''],
     [''tRNA-Beta-DEF-2-x'', ''iso'', ''A-Beta-fc'', ''A-Beta-p'']]"

definition test_B_rows :: "string list list" where
  "test_B_rows = [test_header,
     [''tRNA-Alpha-ABC-1-y'', ''iso'', ''B-Alpha-fc'', ''B-Alpha-p''],
     [''tRNA-Beta-DEF-2-z'', ''iso'', ''B-Beta-fc'', ''B-Beta-p'']]"

definition test_dataset :: "nat \<Rightarrow> string list list \<Rightarrow> string \<Rightarrow> Dataset" where
  "test_dataset a rows name0 =
     (case load_file rows of Inl e \<Rightarrow> Dataset_init a fmempty name0
      | Inr (genes0, skipped) \<Rightarrow> Dataset_init a genes0 name0)"

definition test_A :: Dataset where "test_A = test_dataset 0 test_A_rows ''A''"
definition test_B :: Dataset where "test_B = test_dataset 1 test_B_rows ''B''"

definition test_collection :: DatasetCollection where
  "test_collection = add insertion_order (add insertion_order DatasetCollection_init test_A) test_B"

definition test_collection_BA :: DatasetCollection where
  "test_collection_BA = add insertion_order (add insertion_order DatasetCollection_init test_B) test_A"

text \<open>
  A store that holds the collection of the fixture at reference 0, its set of datasets at
  reference 0 of the sets, and an empty \<^verbatim>\<open>gene_names\<close>.
\<close>

definition test_heap :: heap where
  "test_heap = \<lparr>next_addr = 1,
                 set_at = (\<lambda>r. [])(0 := datasets test_collection),
                 dict_at = (\<lambda>r. fmempty),
                 collection_at = (\<lambda>r. \<lparr>datasets_ref = 0, gene_names_ref = 0\<rparr>)\<rparr>"

section \<open>Properties of the loader\<close>

subsection \<open>Splitting, and one row\<close>

lemma split_not_Nil: "split sep s \<noteq> []"
  by (induction s) (auto split: list.splits)

lemma join_split: "join [sep] (split sep s) = s"
proof (induction s)
  case Nil
  show ?case by simp
next
  case (Cons c cs)
  obtain w ws where sp: "split sep cs = w # ws"
    using split_not_Nil [of sep cs] by (cases "split sep cs") auto
  show ?case
  proof (cases "c = sep")
    case True
    with Cons sp show ?thesis by simp
  next
    case False
    with Cons sp show ?thesis by (cases ws) auto
  qed
qed

lemma split_no_sep: "w \<in> set (split sep s) \<Longrightarrow> sep \<notin> set w"
  by (induction s arbitrary: w) (auto split: list.splits if_splits)

lemma sanitize_id_total: "\<exists>k. sanitize_id s = Inr k"
  using split_not_Nil [of "CHR ''-''" s]
  by (cases "split CHR ''-'' s") (auto simp: sanitize_id_def Let_def)

lemma parse_row_Nil: "parse_row [] = Inl IndexError"
  by (simp add: parse_row_def)

lemma Gene_new_short: "length fs < 4 \<Longrightarrow> Gene_new fs = Inl TypeError"
  by (cases fs rule: Gene_new.cases) auto

lemma parse_row_short:
  assumes "l \<noteq> []" "length l < 4"
  shows "parse_row l = Inl TypeError"
proof -
  obtain f0 rest where l: "l = f0 # rest" using assms(1) by (cases l) auto
  obtain k where k: "sanitize_id f0 = Inr k" using sanitize_id_total by blast
  have "take 4 l = l" using assms(2) by simp
  then show ?thesis
    using l k assms(2) by (simp add: parse_row_def Gene_fields_def Gene_new_short)
qed

lemma parse_row_full:
  assumes "4 \<le> length l" "sanitize_id (l ! 0) = Inr k"
  shows "parse_row l = Inr (Gene k (l ! 1) (l ! 2) (l ! 3))"
proof -
  obtain a b c d r where l: "l = a # b # c # d # r"
    using assms(1) by (cases l rule: Gene_new.cases) auto
  show ?thesis using assms(2) by (simp add: l parse_row_def Gene_fields_def)
qed

lemma parse_row_Inr:
  assumes "parse_row l = Inr g"
  shows "4 \<le> length l \<and> sanitize_id (l ! 0) = Inr (id' g) \<and> g = Gene (id' g) (l ! 1) (l ! 2) (l ! 3)"
proof (cases "l = []")
  case True
  with assms show ?thesis by (simp add: parse_row_Nil)
next
  case False
  show ?thesis
  proof (cases "length l < 4")
    case True
    with False assms show ?thesis by (simp add: parse_row_short)
  next
    case False
    obtain k where k: "sanitize_id (l ! 0) = Inr k" using sanitize_id_total by blast
    from False have "4 \<le> length l" by simp
    from parse_row_full [OF this k] assms k show ?thesis using False by auto
  qed
qed

lemma parse_row_error: "parse_row l = Inl e \<Longrightarrow> e = IndexError \<and> l = [] \<or> e = TypeError \<and> l \<noteq> [] \<and> length l < 4"
  by (metis Inl_Inr_False linorder_not_less old.sum.inject(1) parse_row_Nil parse_row_full
      parse_row_short sanitize_id_total)

subsection \<open>The loop over the rows\<close>

lemma load_rows_ok:
  "[] \<notin> set ls \<Longrightarrow> \<exists>t s. load_rows genes0 skipped ls = Inr (t, s)"
proof (induction ls arbitrary: genes0 skipped)
  case Nil
  show ?case by simp
next
  case (Cons l ls)
  then have l: "l \<noteq> []" and ls: "[] \<notin> set ls" by auto
  show ?case
  proof (cases "parse_row l")
    case (Inl e)
    with l parse_row_error [OF Inl] have "e = TypeError" by auto
    with Inl Cons.IH [OF ls] show ?thesis by simp
  next
    case (Inr g)
    with Cons.IH [OF ls] show ?thesis by simp
  qed
qed

lemma load_rows_error:
  "load_rows genes0 skipped ls = Inl e \<Longrightarrow> e = IndexError \<and> [] \<in> set ls"
proof (induction ls arbitrary: genes0 skipped)
  case Nil
  then show ?case by simp
next
  case (Cons l ls)
  show ?case
  proof (cases "parse_row l")
    case (Inl e')
    from parse_row_error [OF Inl] Cons Inl show ?thesis
      by (auto split: if_splits)
  next
    case (Inr g)
    with Cons show ?thesis by auto
  qed
qed

lemma load_rows_lookup:
  "load_rows genes0 skipped ls = Inr (t, s) \<Longrightarrow> fmlookup t k = Some g \<Longrightarrow>
   fmlookup genes0 k = Some g \<or> (\<exists>l \<in> set ls. parse_row l = Inr g \<and> id' g = k)"
proof (induction ls arbitrary: genes0 skipped)
  case Nil
  then show ?case by simp
next
  case (Cons l ls)
  show ?case
  proof (cases "parse_row l")
    case (Inl e)
    with Cons.prems have "load_rows genes0 (skipped + 1) ls = Inr (t, s)"
      by (simp split: if_splits)
    from Cons.IH [OF this Cons.prems(2)] show ?thesis by auto
  next
    case (Inr g')
    with Cons.prems have "load_rows (fmupd (id' g') g' genes0) skipped ls = Inr (t, s)"
      by simp
    from Cons.IH [OF this Cons.prems(2)] Inr show ?thesis
      by (auto split: if_splits)
  qed
qed

lemma load_rows_untouched:
  "load_rows genes0 skipped ls = Inr (t, s) \<Longrightarrow>
   (\<forall>l \<in> set ls. \<forall>g. parse_row l = Inr g \<longrightarrow> id' g \<noteq> k) \<Longrightarrow>
   fmlookup t k = fmlookup genes0 k"
proof (induction ls arbitrary: genes0 skipped)
  case Nil
  then show ?case by simp
next
  case (Cons l ls)
  show ?case
  proof (cases "parse_row l")
    case (Inl e)
    with Cons.prems have "load_rows genes0 (skipped + 1) ls = Inr (t, s)"
      by (simp split: if_splits)
    from Cons.IH [OF this] Cons.prems(2) show ?thesis by simp
  next
    case (Inr g')
    with Cons.prems have "load_rows (fmupd (id' g') g' genes0) skipped ls = Inr (t, s)"
      by simp
    from Cons.IH [OF this] Cons.prems(2) Inr show ?thesis by simp
  qed
qed

lemma load_rows_append:
  "load_rows genes0 skipped (xs @ ys) =
     (case load_rows genes0 skipped xs of
        Inl e \<Rightarrow> Inl e
      | Inr (t, s) \<Rightarrow> load_rows t s ys)"
  by (induction xs arbitrary: genes0 skipped) (auto split: sum.splits)

lemma load_rows_last:
  assumes "load_rows genes0 skipped ls = Inr (t, s)"
    and "j < length ls" and "parse_row (ls ! j) = Inr g"
    and "\<forall>k. j < k \<and> k < length ls \<longrightarrow> (\<forall>g'. parse_row (ls ! k) = Inr g' \<longrightarrow> id' g' \<noteq> id' g)"
  shows "fmlookup t (id' g) = Some g"
proof -
  have ls: "ls = take j ls @ (ls ! j) # drop (Suc j) ls"
    using assms(2) by (simp add: id_take_nth_drop)
  obtain t1 s1 where pre: "load_rows genes0 skipped (take j ls) = Inr (t1, s1)"
    using assms(1) ls load_rows_append [of genes0 skipped "take j ls" "(ls ! j) # drop (Suc j) ls"]
    by (cases "load_rows genes0 skipped (take j ls)") auto
  have post: "load_rows (fmupd (id' g) g t1) s1 (drop (Suc j) ls) = Inr (t, s)"
    using assms(1,3) pre ls load_rows_append [of genes0 skipped "take j ls" "(ls ! j) # drop (Suc j) ls"]
    by simp
  have "\<forall>l \<in> set (drop (Suc j) ls). \<forall>g'. parse_row l = Inr g' \<longrightarrow> id' g' \<noteq> id' g"
  proof
    fix l assume "l \<in> set (drop (Suc j) ls)"
    then obtain i where i: "i < length (drop (Suc j) ls)" "l = drop (Suc j) ls ! i"
      by (auto simp: in_set_conv_nth)
    then have "l = ls ! (Suc j + i)" "Suc j + i < length ls" "j < Suc j + i" by auto
    with assms(4) show "\<forall>g'. parse_row l = Inr g' \<longrightarrow> id' g' \<noteq> id' g" by blast
  qed
  from load_rows_untouched [OF post this] show ?thesis by simp
qed

lemma load_rows_skipped:
  "load_rows genes0 skipped ls = Inr (t, s) \<Longrightarrow>
   s = skipped + int (length (filter (\<lambda>l. length l < 4) ls))"
proof (induction ls arbitrary: genes0 skipped)
  case Nil
  then show ?case by simp
next
  case (Cons l ls)
  show ?case
  proof (cases "parse_row l")
    case (Inl e)
    with Cons.prems have "load_rows genes0 (skipped + 1) ls = Inr (t, s)"
      by (simp split: if_splits)
    from Cons.IH [OF this] parse_row_error [OF Inl] show ?thesis by auto
  next
    case (Inr g')
    with Cons.prems have "load_rows (fmupd (id' g') g' genes0) skipped ls = Inr (t, s)"
      by simp
    from Cons.IH [OF this] parse_row_Inr [OF Inr] show ?thesis by simp
  qed
qed

lemma load_rows_short:
  assumes "l \<noteq> []" and "length l < 4"
  shows "load_rows genes0 skipped (l # ls) = load_rows genes0 (skipped + 1) ls"
  using parse_row_short [OF assms] by simp

subsection \<open>The claims about normalizing and loading\<close>

text \<open>
  Claim C7. \<open>sanitize_id\<close> returns for every string, without an exception: it splits
  the input on \<open>-\<close>, drops the first field exactly when that field is \<open>tRNA\<close>, and
  joins the first three of the remaining fields (or all of them, when there are fewer) with
  \<open>-\<close>. \<open>tRNA-Ala-CGC-1-2\<close> becomes \<open>Ala-CGC-1\<close> and \<open>Foo-Bar-Baz-Qux\<close> becomes
  \<open>Foo-Bar-Baz\<close>.
\<close>

theorem sanitize_id_spec:
  "sanitize_id ident =
     Inr (join ''-'' (take 3 (if hd (split CHR ''-'' ident) = ''tRNA''
                              then tl (split CHR ''-'' ident)
                              else split CHR ''-'' ident)))
   \<and> sanitize_id ''tRNA-Ala-CGC-1-2'' = Inr ''Ala-CGC-1''
   \<and> sanitize_id ''Foo-Bar-Baz-Qux'' = Inr ''Foo-Bar-Baz''"
proof -
  obtain f0 rest where sp: "split CHR ''-'' ident = f0 # rest"
    using split_not_Nil [of "CHR ''-''" ident] by (cases "split CHR ''-'' ident") auto
  have "sanitize_id ident =
     Inr (join ''-'' (take 3 (if hd (split CHR ''-'' ident) = ''tRNA''
                              then tl (split CHR ''-'' ident)
                              else split CHR ''-'' ident)))"
    by (simp add: sanitize_id_def sp)
  moreover have "sanitize_id ''tRNA-Ala-CGC-1-2'' = Inr ''Ala-CGC-1''"
    by (simp add: sanitize_id_def)
  moreover have "sanitize_id ''Foo-Bar-Baz-Qux'' = Inr ''Foo-Bar-Baz''"
    by (simp add: sanitize_id_def)
  ultimately show ?thesis by blast
qed

theorem sanitize_id_spec_witness:
  "sanitize_id ''tRNA-Gly'' = Inr ''Gly'' \<and> sanitize_id ''tRNA'' = Inr '''' \<and> sanitize_id '''' = Inr ''''"
  using sanitize_id_spec [of "''tRNA-Gly''"] sanitize_id_spec [of "''tRNA''"] sanitize_id_spec [of "''''"]
  by simp

text \<open>
  Claim C6. The claim holds for a row of one, two or three fields (\<open>load_rows_short\<close>
  below: the row is counted and the loop goes on), but a row with no field, which
  \<^verbatim>\<open>csv.reader\<close> yields for an empty line, makes \<^verbatim>\<open>fields[0]\<close> raise
  \<^verbatim>\<open>IndexError\<close>, which \<^verbatim>\<open>except TypeError\<close> does not catch: the load stops and the
  rows already read and those still to come are lost.
\<close>

theorem load_file_empty_row_aborts:
  "load_file [[''id'', ''iso'', ''foldcount'', ''p_value''],
              [''tRNA-Ala-CGC-1-2'', ''x'', ''1.5'', ''0.01''],
              [],
              [''tRNA-Gly-GCC-2-1'', ''y'', ''2.5'', ''0.02'']] = Inl IndexError"
  by (simp add: load_file_def parse_row_def sanitize_id_def Gene_fields_def)

text \<open>
  Claim C8. When the rows at positions \<open>i < j\<close> both have four fields or more and their
  first fields normalize to the same id \<open>k\<close>, and no later row with four fields or more
  normalizes to \<open>k\<close>, the load ends without an error and the table maps \<open>k\<close> to the
  record of row \<open>j\<close>. (A file without an empty line: the rows are all non-empty.)
\<close>

theorem load_file_later_row_wins:
  assumes "[] \<notin> set ls"
    and "i < j" and "j < length ls"
    and "4 \<le> length (ls ! i)" and "4 \<le> length (ls ! j)"
    and "sanitize_id (ls ! i ! 0) = Inr k" and "sanitize_id (ls ! j ! 0) = Inr k"
    and "\<forall>n. j < n \<and> n < length ls \<and> 4 \<le> length (ls ! n) \<longrightarrow> sanitize_id (ls ! n ! 0) \<noteq> Inr k"
  shows "\<exists>table skipped. load_file (header # ls) = Inr (table, skipped) \<and>
           fmlookup table k = Some (Gene k (ls ! j ! 1) (ls ! j ! 2) (ls ! j ! 3))"
proof -
  obtain t s where ld: "load_rows fmempty 0 ls = Inr (t, s)"
    using load_rows_ok [OF assms(1)] by blast
  let ?g = "Gene k (ls ! j ! 1) (ls ! j ! 2) (ls ! j ! 3)"
  have pj: "parse_row (ls ! j) = Inr ?g"
    using parse_row_full [OF assms(5) assms(7)] .
  have later: "\<forall>n. j < n \<and> n < length ls \<longrightarrow> (\<forall>g'. parse_row (ls ! n) = Inr g' \<longrightarrow> id' g' \<noteq> id' ?g)"
  proof (intro allI impI)
    fix n g' assume n: "j < n \<and> n < length ls" and p: "parse_row (ls ! n) = Inr g'"
    from parse_row_Inr [OF p] have "4 \<le> length (ls ! n)" "sanitize_id (ls ! n ! 0) = Inr (id' g')"
      by auto
    with assms(8) n show "id' g' \<noteq> id' ?g" by auto
  qed
  from load_rows_last [OF ld assms(3) pj later] have "fmlookup t k = Some ?g" by simp
  with ld show ?thesis by (simp add: load_file_def)
qed

theorem load_file_later_row_wins_witness:
  "\<exists>table skipped.
     load_file [[''id'', ''iso'', ''foldcount'', ''p_value''],
                [''tRNA-Ala-CGC-1-2'', ''x'', ''1.5'', ''0.01''],
                [''Ala-CGC-1-7'', ''y'', ''2.5'', ''0.02'', ''extra'']] = Inr (table, skipped) \<and>
     fmlookup table ''Ala-CGC-1'' = Some (Gene ''Ala-CGC-1'' ''y'' ''2.5'' ''0.02'')"
proof -
  let ?ls = "[[''tRNA-Ala-CGC-1-2'', ''x'', ''1.5'', ''0.01''],
              [''Ala-CGC-1-7'', ''y'', ''2.5'', ''0.02'', ''extra'']]"
  have h1: "[] \<notin> set ?ls" by simp
  have h2: "(0::nat) < 1" by simp
  have h3: "1 < length ?ls" by simp
  have h4: "4 \<le> length (?ls ! 0)" by simp
  have h5: "4 \<le> length (?ls ! 1)" by simp
  have h6: "sanitize_id (?ls ! 0 ! 0) = Inr ''Ala-CGC-1''" by (simp add: sanitize_id_def)
  have h7: "sanitize_id (?ls ! 1 ! 0) = Inr ''Ala-CGC-1''" by (simp add: sanitize_id_def)
  have h8: "\<forall>n. 1 < n \<and> n < length ?ls \<and> 4 \<le> length (?ls ! n) \<longrightarrow>
              sanitize_id (?ls ! n ! 0) \<noteq> Inr ''Ala-CGC-1''"
  proof (intro allI impI)
    fix n :: nat
    assume "1 < n \<and> n < length ?ls \<and> 4 \<le> length (?ls ! n)"
    then have "1 < n \<and> n < 2" by simp
    then show "sanitize_id (?ls ! n ! 0) \<noteq> Inr ''Ala-CGC-1''" by arith
  qed
  from load_file_later_row_wins [OF h1 h2 h3 h4 h5 h6 h7 h8, of "[''id'', ''iso'', ''foldcount'', ''p_value'']"]
  show ?thesis by simp
qed

text \<open>
  Claim C10. In a table returned by \<open>load_file\<close> every key \<open>k\<close> maps to a record
  whose \<open>id\<close> field is \<open>k\<close>, and \<open>k\<close> is the normalized first field of a row after
  the header; so the \<open>ids\<close> of a dataset built from the table are exactly the \<open>id\<close>
  fields of its records.
\<close>

theorem load_file_key_is_id:
  assumes "load_file reader = Inr (table, skipped)"
  shows "(\<forall>k g. fmlookup table k = Some g \<longrightarrow>
            id' g = k \<and>
            (\<exists>l \<in> set (tl reader). 4 \<le> length l \<and> sanitize_id (l ! 0) = Inr k \<and>
                                     g = Gene k (l ! 1) (l ! 2) (l ! 3)))
       \<and> Dataset.ids (Dataset_init a table nm) = id' |`| fmran table"
proof -
  obtain header ls where r: "reader = header # ls" and ld: "load_rows fmempty 0 ls = Inr (table, skipped)"
    using assms by (cases reader) (auto simp: load_file_def)
  have key: "id' g = k \<and>
             (\<exists>l \<in> set ls. 4 \<le> length l \<and> sanitize_id (l ! 0) = Inr k \<and>
                              g = Gene k (l ! 1) (l ! 2) (l ! 3))"
    if "fmlookup table k = Some g" for k g
  proof -
    from load_rows_lookup [OF ld that] obtain l where l: "l \<in> set ls" "parse_row l = Inr g" "id' g = k"
      by auto
    note p = parse_row_Inr [OF l(2)]
    have "\<exists>l \<in> set ls. 4 \<le> length l \<and> sanitize_id (l ! 0) = Inr (id' g) \<and>
                          g = Gene (id' g) (l ! 1) (l ! 2) (l ! 3)"
      using p l(1) by (rule bexI)
    with l(3) show ?thesis unfolding l(3) by (rule conjI)
  qed
  have "fmdom table = id' |`| fmran table"
  proof (rule fset_eqI)
    fix x
    show "x |\<in>| fmdom table \<longleftrightarrow> x |\<in>| id' |`| fmran table"
    proof
      assume "x |\<in>| fmdom table"
      then obtain g where g: "fmlookup table x = Some g" by (auto simp: fmlookup_dom_iff)
      with key [OF g] have "g |\<in>| fmran table" "id' g = x" by (auto simp: fmlookup_ran_iff)
      then show "x |\<in>| id' |`| fmran table" by auto
    next
      assume "x |\<in>| id' |`| fmran table"
      then obtain g k where "fmlookup table k = Some g" "x = id' g"
        by (auto simp: fmlookup_ran_iff)
      with key [of k g] show "x |\<in>| fmdom table" by (auto simp: fmlookup_dom_iff)
    qed
  qed
  with key r show ?thesis by (simp add: Dataset_init_def)
qed

theorem load_file_key_is_id_witness:
  "load_file [[''id'', ''iso'', ''foldcount'', ''p_value''],
              [''tRNA-Ala-CGC-1-2'', ''x'', ''1.5'', ''0.01'']]
     = Inr (fmupd ''Ala-CGC-1'' (Gene ''Ala-CGC-1'' ''x'' ''1.5'' ''0.01'') fmempty, 0)
   \<and> Dataset.ids (Dataset_init 0 (fmupd ''Ala-CGC-1'' (Gene ''Ala-CGC-1'' ''x'' ''1.5'' ''0.01'') fmempty) ''A'')
       = id' |`| fmran (fmupd ''Ala-CGC-1'' (Gene ''Ala-CGC-1'' ''x'' ''1.5'' ''0.01'') fmempty)"
proof -
  have h: "load_file [[''id'', ''iso'', ''foldcount'', ''p_value''],
              [''tRNA-Ala-CGC-1-2'', ''x'', ''1.5'', ''0.01'']]
     = Inr (fmupd ''Ala-CGC-1'' (Gene ''Ala-CGC-1'' ''x'' ''1.5'' ''0.01'') fmempty, 0)"
    by (simp add: load_file_def parse_row_def sanitize_id_def Gene_fields_def)
  from load_file_key_is_id [OF h, of 0 "''A''"]
  have "Dataset.ids (Dataset_init 0 (fmupd ''Ala-CGC-1'' (Gene ''Ala-CGC-1'' ''x'' ''1.5'' ''0.01'') fmempty) ''A'')
       = id' |`| fmran (fmupd ''Ala-CGC-1'' (Gene ''Ala-CGC-1'' ''x'' ''1.5'' ''0.01'') fmempty)"
    by (rule conjunct2)
  with h show ?thesis by (rule conjI)
qed

section \<open>Properties of the collection\<close>

subsection \<open>Running over a list, sets of datasets, combinations\<close>

text \<open>\<open>mapM\<close> succeeds exactly when the function succeeds on every element.\<close>

lemma mapM_Inr_iff: "mapM f xs = Inr ys \<longleftrightarrow> list_all2 (\<lambda>x y. f x = Inr y) xs ys"
proof (induction xs arbitrary: ys)
  case Nil
  show ?case by auto
next
  case (Cons x xs)
  show ?case
  proof (cases ys)
    case Nil
    then show ?thesis by (simp split: sum.splits)
  next
    case ys: (Cons z zs)
    show ?thesis
    proof (cases "f x")
      case (Inl e)
      then show ?thesis by (simp add: ys)
    next
      case fx: (Inr y)
      show ?thesis
      proof (cases "mapM f xs")
        case (Inl e)
        with Cons.IH [of zs] have "\<not> list_all2 (\<lambda>x y. f x = Inr y) xs zs" by simp
        with fx Inl show ?thesis by (simp add: ys)
      next
        case (Inr ws)
        with Cons.IH [of zs] have "list_all2 (\<lambda>x y. f x = Inr y) xs zs \<longleftrightarrow> ws = zs" by simp
        with fx Inr show ?thesis by (auto simp add: ys)
      qed
    qed
  qed
qed

lemma mapM_total:
  "(\<And>x. x \<in> set xs \<Longrightarrow> \<exists>y. f x = Inr y) \<Longrightarrow> \<exists>ys. mapM f xs = Inr ys"
proof (induction xs)
  case Nil
  show ?case by simp
next
  case (Cons x xs)
  then obtain y ys where "f x = Inr y" "mapM f xs = Inr ys" by (meson list.set_intros)
  then show ?case by simp
qed

lemma mapM_map:
  "(\<And>x. x \<in> set xs \<Longrightarrow> f x = Inr (g x)) \<Longrightarrow> mapM f xs = Inr (map g xs)"
  by (induction xs) auto

text \<open>
  A rearrangement keeps the members, their number and their distinctness; so the set
  operations give the members Python's give, in some order.
\<close>

lemma reorders_set: "reorders f \<Longrightarrow> set (f xs) = set xs"
  unfolding reorders_def by (metis set_mset_mset)

lemma reorders_length: "reorders f \<Longrightarrow> length (f xs) = length xs"
  unfolding reorders_def by (metis size_mset)

lemma reorders_is_set: "reorders f \<Longrightarrow> is_set (f xs) = is_set xs"
proof -
  assume "reorders f"
  then have "mset (map obj_id (f xs)) = mset (map obj_id xs)"
    unfolding reorders_def by (metis mset_map)
  then show ?thesis unfolding is_set_def by (metis mset_eq_imp_distinct_iff)
qed

lemma is_set_distinct: "is_set xs \<Longrightarrow> distinct xs"
  unfolding is_set_def by (simp add: distinct_map)

lemma is_set_inj: "is_set xs \<Longrightarrow> inj_on obj_id (set xs)"
  unfolding is_set_def by (simp add: distinct_map)

lemma member_iff: "is_set xs \<Longrightarrow> d \<in> set xs \<Longrightarrow> set b \<subseteq> set xs \<Longrightarrow> member d b \<longleftrightarrow> d \<in> set b"
  unfolding member_def using is_set_inj [of xs] by (auto simp: inj_on_def subset_iff)

lemma foldl_insert_member:
  "is_set (acc @ c) \<Longrightarrow> foldl insert_member acc c = acc @ c"
proof (induction c arbitrary: acc)
  case Nil
  show ?case by simp
next
  case (Cons d c)
  from Cons.prems have "\<not> member d acc" by (auto simp: is_set_def member_def)
  moreover from Cons.prems have "is_set ((acc @ [d]) @ c)" by simp
  ultimately show ?case using Cons.IH [of "acc @ [d]"] by (simp add: insert_member_def)
qed

lemma set_new_mset: "set_order_ok so \<Longrightarrow> is_set c \<Longrightarrow> mset (set_new so c) = mset c"
  using foldl_insert_member [of "[]" c] by (simp add: set_new_def set_order_ok_def reorders_def)

lemma set_sub_set:
  assumes "set_order_ok so" and "is_set a" and "set b \<subseteq> set a"
  shows "set (set_sub so a b) = set a - set b"
proof -
  have "set (set_sub so a b) = set (filter (\<lambda>d. \<not> member d b) a)"
    using assms(1) by (simp add: set_sub_def set_order_ok_def reorders_set)
  also have "\<dots> = set a - set b"
    using member_iff [OF assms(2) _ assms(3)] by auto
  finally show ?thesis .
qed

lemma set_add_is_set:
  assumes "set_order_ok so" and "is_set s"
  shows "is_set (set_add so s d) \<and> obj_id ` set (set_add so s d) = insert (obj_id d) (obj_id ` set s)"
proof (cases "member d s")
  case True
  with assms show ?thesis by (auto simp: set_add_def member_def)
next
  case False
  have r: "reorders (iter_add so)" using assms(1) by (simp add: set_order_ok_def)
  from False assms(2) have "is_set (s @ [d])" by (auto simp: is_set_def member_def)
  with False show ?thesis by (simp add: set_add_def reorders_is_set [OF r] reorders_set [OF r])
qed

text \<open>
  \<open>combinations xs r\<close> lists, for a duplicate-free \<open>xs\<close>, every subset of size \<open>r\<close>
  exactly once; there are \<open>length xs choose r\<close> of them.
\<close>

lemma combinations_length: "c \<in> set (combinations xs r) \<Longrightarrow> length c = r"
  by (induction xs r arbitrary: c rule: combinations.induct) auto

lemma combinations_elem: "c \<in> set (combinations xs r) \<Longrightarrow> y \<in> set c \<Longrightarrow> y \<in> set xs"
proof (induction xs r arbitrary: c rule: combinations.induct)
  case (1 xs)
  then show ?case by simp
next
  case (2 r)
  then show ?case by simp
next
  case (3 x xs r)
  from "3.prems"(1) consider c' where "c = x # c'" "c' \<in> set (combinations xs r)"
    | "c \<in> set (combinations xs (Suc r))" by auto
  then show ?case
  proof cases
    case 1
    with "3.prems"(2) "3.IH"(1) [of c'] show ?thesis by auto
  next
    case 2
    with "3.prems"(2) "3.IH"(2) [of c] show ?thesis by auto
  qed
qed

lemma combinations_subset:
  assumes "c \<in> set (combinations xs r)"
  shows "set c \<subseteq> set xs"
proof
  fix y assume "y \<in> set c"
  with assms show "y \<in> set xs" by (rule combinations_elem)
qed

lemma combinations_is_set: "is_set xs \<Longrightarrow> c \<in> set (combinations xs r) \<Longrightarrow> is_set c"
proof (induction xs r arbitrary: c rule: combinations.induct)
  case (1 xs)
  then show ?case by (simp add: is_set_def)
next
  case (2 r)
  then show ?case by simp
next
  case (3 x xs r)
  from "3.prems"(1) have xs: "is_set xs" and x: "obj_id x \<notin> obj_id ` set xs"
    by (auto simp: is_set_def)
  from "3.prems"(2) consider c' where "c = x # c'" "c' \<in> set (combinations xs r)"
    | "c \<in> set (combinations xs (Suc r))" by auto
  then show ?case
  proof cases
    case 1
    with "3.IH"(1) [OF xs] have "is_set c'" by simp
    moreover from 1 combinations_subset have "set c' \<subseteq> set xs" by blast
    ultimately show ?thesis using x 1 by (auto simp: is_set_def)
  next
    case 2
    with "3.IH"(2) [OF xs] show ?thesis by simp
  qed
qed

lemma combinations_count: "length (combinations xs r) = length xs choose r"
  by (induction xs r rule: combinations.induct) auto



lemma combinations_sets:
  "distinct xs \<Longrightarrow> set ` set (combinations xs r) = {S. S \<subseteq> set xs \<and> card S = r}"
proof (induction xs r rule: combinations.induct)
  case (1 xs)
  have "{S. S \<subseteq> set xs \<and> card S = 0} = {{}}"
    using finite_subset [OF _ finite_set [of xs]] by auto
  then show ?case by simp
next
  case (2 r)
  show ?case by auto
next
  case (3 x xs r)
  from "3.prems" have d: "distinct xs" and x: "x \<notin> set xs" by auto
  have A: "set ` set (map ((#) x) (combinations xs r)) = insert x ` {S. S \<subseteq> set xs \<and> card S = r}"
  proof -
    have "set ` set (map ((#) x) (combinations xs r)) = insert x ` (set ` set (combinations xs r))"
      by (simp add: image_image)
    with "3.IH"(1) [OF d] show ?thesis by simp
  qed
  have B: "{S. S \<subseteq> set (x # xs) \<and> card S = Suc r}
         = insert x ` {S. S \<subseteq> set xs \<and> card S = r} \<union> {S. S \<subseteq> set xs \<and> card S = Suc r}"
    (is "?L = ?R")
  proof (rule set_eqI)
    fix S
    show "S \<in> ?L \<longleftrightarrow> S \<in> ?R"
    proof
      assume S: "S \<in> ?L"
      then have fin: "finite S" using finite_subset [of S "set (x # xs)"] by auto
      show "S \<in> ?R"
      proof (cases "x \<in> S")
        case True
        then have "S = insert x (S - {x})" by auto
        moreover have "S - {x} \<subseteq> set xs" using S by auto
        moreover have "card (S - {x}) = r" using S True fin by simp
        ultimately show ?thesis by blast
      next
        case False
        with S show ?thesis by auto
      qed
    next
      assume "S \<in> ?R"
      then show "S \<in> ?L"
      proof
        assume "S \<in> insert x ` {S. S \<subseteq> set xs \<and> card S = r}"
        then obtain T where T: "S = insert x T" "T \<subseteq> set xs" "card T = r" by auto
        then have "finite T" using finite_subset [of T "set xs"] by auto
        with T x show ?thesis by (auto simp: card_insert_if)
      next
        assume "S \<in> {S. S \<subseteq> set xs \<and> card S = Suc r}"
        then show ?thesis by auto
      qed
    qed
  qed
  show ?case
    using A B "3.IH"(2) [OF d] by (simp add: image_Un)
qed



lemma combinations_distinct:
  "distinct xs \<Longrightarrow> distinct (map set (combinations xs r))"
proof (induction xs r rule: combinations.induct)
  case (1 xs)
  show ?case by simp
next
  case (2 r)
  show ?case by simp
next
  case (3 x xs r)
  from "3.prems" have d: "distinct xs" and x: "x \<notin> set xs" by auto
  have inj: "inj_on (insert x) (set ` set (combinations xs r))"
  proof (rule inj_onI)
    fix S T assume "S \<in> set ` set (combinations xs r)" "T \<in> set ` set (combinations xs r)"
      and eq: "insert x S = insert x T"
    then have "x \<notin> S" "x \<notin> T" using combinations_subset x by blast+
    with eq show "S = T" by (metis insert_ident)
  qed
  have "map set (map ((#) x) (combinations xs r)) = map (insert x) (map set (combinations xs r))"
    by simp
  then have d1: "distinct (map set (map ((#) x) (combinations xs r)))"
    using "3.IH"(1) [OF d] inj by (simp add: distinct_map del: map_map)
  have disj: "set (map set (map ((#) x) (combinations xs r))) \<inter> set (map set (combinations xs (Suc r))) = {}"
  proof -
    have "x \<in> S" if "S \<in> set (map set (map ((#) x) (combinations xs r)))" for S
      using that by auto
    moreover have "x \<notin> S" if "S \<in> set (map set (combinations xs (Suc r)))" for S
      using that combinations_subset [of _ xs "Suc r"] x by auto
    ultimately show ?thesis by blast
  qed
  from d1 "3.IH"(2) [OF d] disj show ?case by simp
qed

subsection \<open>All combinations, by length\<close>

text \<open>
  The combinations that the two loops of \<open>slices\<close> run through: all lengths from 1 to
  the number of datasets, in that order.
\<close>

lemma upt_combinations_Suc:
  "concat (map (\<lambda>l. combinations xs (Suc l)) [0..<Suc m])
   = concat (map (\<lambda>l. combinations xs (Suc l)) [0..<m]) @ combinations xs (Suc m)"
  by simp

lemma subsets_length:
  "c \<in> set (concat (map (\<lambda>l. combinations xs (Suc l)) [0..<m])) \<Longrightarrow> 1 \<le> length c \<and> length c \<le> m"
  by (auto dest: combinations_length)

lemma subsets_count_upto:
  "length (concat (map (\<lambda>l. combinations xs (Suc l)) [0..<m])) = (\<Sum>k = 1..m. length xs choose k)"
proof (induction m)
  case 0
  show ?case by simp
next
  case (Suc m)
  show ?case
    unfolding upt_combinations_Suc by (simp add: Suc combinations_count)
qed

lemma subsets_count:
  "length (concat (map (\<lambda>l. combinations xs (Suc l)) [0..<length xs])) = 2 ^ length xs - 1"
proof -
  let ?n = "length xs"
  have "(\<Sum>k\<le>?n. ?n choose k) = (?n choose 0) + (\<Sum>k = 1..?n. ?n choose k)"
    by (simp add: atMost_atLeast0 sum.atLeast_Suc_atMost)
  then have "(\<Sum>k = 1..?n. ?n choose k) = 2 ^ ?n - 1"
    by (simp add: choose_row_sum)
  then show ?thesis by (simp add: subsets_count_upto)
qed

lemma sorted_map_const: "(\<And>y. y \<in> set ys \<Longrightarrow> f y = (k::nat)) \<Longrightarrow> sorted (map f ys)"
  by (induction ys) auto

lemma subsets_sorted:
  "sorted (map length (concat (map (\<lambda>l. combinations xs (Suc l)) [0..<m])))"
proof (induction m)
  case 0
  show ?case by simp
next
  case (Suc m)
  have "sorted (map length (combinations xs (Suc m)))"
    by (rule sorted_map_const) (auto dest: combinations_length)
  with Suc show ?case
    unfolding upt_combinations_Suc
    by (auto simp: sorted_append dest!: combinations_length)
qed

lemma subsets_distinct:
  assumes "distinct xs"
  shows "distinct (map set (concat (map (\<lambda>l. combinations xs (Suc l)) [0..<m])))"
proof (induction m)
  case 0
  show ?case by simp
next
  case (Suc m)
  have disj: "set c \<noteq> set c'"
    if "c \<in> set (concat (map (\<lambda>l. combinations xs (Suc l)) [0..<m]))"
      and "c' \<in> set (combinations xs (Suc m))" for c c'
  proof -
    from that(1) have "length c \<le> m" using subsets_length by blast
    then have "card (set c) \<le> m" using card_length [of c] by simp
    moreover have "distinct c'"
      using that(2) assms combinations_sets [OF assms, of "Suc m"] combinations_length [OF that(2)]
      by (metis (mono_tags, lifting) card_distinct image_eqI mem_Collect_eq)
    then have "card (set c') = Suc m"
      using combinations_length [OF that(2)] by (simp add: distinct_card)
    ultimately show ?thesis by auto
  qed
  show ?case
    unfolding upt_combinations_Suc
    using Suc combinations_distinct [OF assms, of "Suc m"] disj by auto
qed

lemma subsets_sets:
  assumes "distinct xs"
  shows "set ` set (concat (map (\<lambda>l. combinations xs (Suc l)) [0..<length xs]))
         = {S. S \<subseteq> set xs \<and> S \<noteq> {}}" (is "?L = ?R")
proof (rule set_eqI)
  fix S
  have "?L = (\<Union>l \<in> {0..<length xs}. {S. S \<subseteq> set xs \<and> card S = Suc l})"
    using combinations_sets [OF assms] by (auto simp: image_UN)
  then have L: "S \<in> ?L \<longleftrightarrow> S \<subseteq> set xs \<and> (\<exists>l < length xs. card S = Suc l)" by auto
  show "S \<in> ?L \<longleftrightarrow> S \<in> ?R"
  proof
    assume "S \<in> ?L"
    with L show "S \<in> ?R" by auto
  next
    assume "S \<in> ?R"
    then have S: "S \<subseteq> set xs" "S \<noteq> {}" by auto
    then have fin: "finite S" using finite_subset by blast
    with S have "0 < card S" by (simp add: card_gt_0_iff)
    moreover have "card S \<le> length xs"
      using card_mono [OF finite_set S(1)] card_length [of xs] by linarith
    ultimately have "\<exists>l < length xs. card S = Suc l" by (metis Suc_le_eq Suc_pred)
    with S L show "S \<in> ?L" by simp
  qed
qed

subsection \<open>One slice\<close>

text \<open>The set algebra of \<open>calc_ids\<close>, and what the constructor stores.\<close>

lemma fold_inter_fset:
  "fset (fold (\<lambda>k s. s |\<inter>| k) ks k0) = fset k0 \<inter> (\<Inter>k \<in> set ks. fset k)"
  by (induction ks arbitrary: k0) auto

lemma fold_minus_fset:
  "fset (fold (\<lambda>e s. s |-| e) es A) = fset A - (\<Union>e \<in> set es. fset e)"
  by (induction es arbitrary: A) auto

lemma sorted_list_of_fset_strict: "sorted_wrt (<) (sorted_list_of_fset S)"
  by (simp add: sorted_list_of_fset.rep_eq)

lemma calc_ids_Nil: "calc_ids [] ex = Inl IndexError"
  by (simp add: calc_ids_def)

lemma calc_ids_Inr:
  assumes "calc_ids kp ex = Inr l"
  shows "kp \<noteq> []"
    and "set l = (\<Inter>d \<in> set kp. fset (Dataset.ids d)) - (\<Union>d \<in> set ex. fset (Dataset.ids d))"
    and "sorted_wrt (<) l"
proof -
  from assms show ne: "kp \<noteq> []" by (auto simp: calc_ids_def)
  then obtain d ds where kp: "kp = d # ds" by (cases kp) auto
  from assms have l: "l = sorted_list_of_fset
      (fold (\<lambda>e s. s |-| e) (map Dataset.ids ex) (fold (\<lambda>k s. s |\<inter>| k) (map Dataset.ids ds) (Dataset.ids d)))"
    by (simp add: calc_ids_def kp)
  show "set l = (\<Inter>d \<in> set kp. fset (Dataset.ids d)) - (\<Union>d \<in> set ex. fset (Dataset.ids d))"
    by (simp add: l kp fold_minus_fset fold_inter_fset)
  show "sorted_wrt (<) l" by (simp add: l sorted_list_of_fset_strict)
qed

lemma calc_ids_total: "kp \<noteq> [] \<Longrightarrow> \<exists>l. calc_ids kp ex = Inr l"
  by (cases kp) (auto simp: calc_ids_def)

lemma DataSlice_init_Inr:
  assumes "DataSlice_init kp ex c = Inr s"
  shows "keep s = kp" and "exclude s = ex" and "collection s = c"
    and "calc_ids kp ex = Inr (DataSlice.ids s)"
    and "DataSlice.name s = ''('' @ join '' & '' (map Dataset.name kp) @ '') - (''
                              @ join '' | '' (map Dataset.name ex) @ '')''"
  using assms by (auto simp: DataSlice_init_def Let_def split: sum.splits)

lemma DataSlice_init_total: "kp \<noteq> [] \<Longrightarrow> \<exists>s. DataSlice_init kp ex c = Inr s"
  using calc_ids_total [of kp ex] by (auto simp: DataSlice_init_def Let_def)

lemma slice_ids:
  assumes "DataSlice_init kp ex c = Inr s"
  shows "set (DataSlice.ids s)
           = (\<Inter>d \<in> set (keep s). fset (Dataset.ids d)) - (\<Union>d \<in> set (exclude s). fset (Dataset.ids d))"
    and "sorted_wrt (<) (DataSlice.ids s)"
    and "keep s \<noteq> []"
  using DataSlice_init_Inr [OF assms] calc_ids_Inr [of kp ex "DataSlice.ids s"] by auto

lemma slices_Inr_iff:
  "slices so self = Inr ss \<longleftrightarrow>
     list_all2 (\<lambda>c s. make_slice so self c = Inr s)
       (concat (map (\<lambda>l. combinations (datasets self) (Suc l)) [0..<length (datasets self)])) ss"
  by (simp add: slices_def mapM_Inr_iff)

lemma list_all2_right_member:
  "list_all2 P xs ys \<Longrightarrow> y \<in> set ys \<Longrightarrow> \<exists>x \<in> set xs. P x y"
  by (induction rule: list_all2_induct) auto

lemma slices_member:
  assumes "slices so self = Inr ss" and "s \<in> set ss"
  shows "\<exists>c. c \<in> set (concat (map (\<lambda>l. combinations (datasets self) (Suc l)) [0..<length (datasets self)]))
             \<and> make_slice so self c = Inr s"
  using assms list_all2_right_member unfolding slices_Inr_iff by fast

lemma make_slice_Inr:
  assumes "make_slice so self c = Inr s"
  shows "DataSlice_init (set_new so c) (set_sub so (datasets self) (set_new so c)) self = Inr s"
  using assms by (simp add: make_slice_def Let_def)

text \<open>
  Claim C1. For every slice that \<open>slices\<close> yields, the set of its \<open>ids\<close> is the
  intersection of the id sets of the datasets in \<open>keep\<close> minus the union of the id
  sets of the datasets in \<open>exclude\<close>, and \<open>ids\<close> lists it in strictly ascending
  order of the strings, so without duplicates; hence every id of the slice is in every
  dataset kept and in no dataset excluded.
\<close>

theorem slice_ids_partition:
  assumes "slices so self = Inr ss" and "s \<in> set ss"
  shows "set (DataSlice.ids s)
           = (\<Inter>d \<in> set (keep s). fset (Dataset.ids d)) - (\<Union>d \<in> set (exclude s). fset (Dataset.ids d))
       \<and> sorted_wrt (<) (DataSlice.ids s) \<and> distinct (DataSlice.ids s)
       \<and> (\<forall>i \<in> set (DataSlice.ids s).
             (\<forall>d \<in> set (keep s). i |\<in>| Dataset.ids d) \<and> (\<forall>d \<in> set (exclude s). i |\<notin>| Dataset.ids d))"
proof -
  from slices_member [OF assms] obtain c where "make_slice so self c = Inr s" by blast
  note init = make_slice_Inr [OF this]
  note ids = slice_ids [OF init]
  from ids(2) have "distinct (DataSlice.ids s)"
    using strict_sorted_iff by blast
  with ids show ?thesis by auto
qed

subsection \<open>The slices of a collection\<close>

text \<open>The sets \<open>keep\<close> and \<open>exclude\<close> that \<open>slices\<close> passes to the constructor.\<close>

lemma set_new_props:
  assumes "set_order_ok so" and "is_set c"
  shows "set (set_new so c) = set c" and "length (set_new so c) = length c"
    and "is_set (set_new so c)"
proof -
  note m = set_new_mset [OF assms]
  from m show "set (set_new so c) = set c" by (metis set_mset_mset)
  from m show "length (set_new so c) = length c" by (metis size_mset)
  from m have "mset (map obj_id (set_new so c)) = mset (map obj_id c)" by (metis mset_map)
  with assms(2) show "is_set (set_new so c)"
    unfolding is_set_def by (metis mset_eq_imp_distinct_iff)
qed

lemma set_sub_is_set:
  assumes "set_order_ok so" and "is_set a"
  shows "is_set (set_sub so a b)"
proof -
  have r: "reorders (iter_sub so)" using assms(1) by (simp add: set_order_ok_def)
  have "is_set (filter (\<lambda>d. \<not> member d b) a)"
    using assms(2) unfolding is_set_def by (simp add: distinct_map_filter)
  then show ?thesis by (simp add: set_sub_def reorders_is_set [OF r])
qed

lemma make_slice_shape:
  assumes ok: "set_order_ok so" and D: "is_set (datasets self)"
    and c: "c \<in> set (combinations (datasets self) (Suc l))"
  shows "\<exists>s. make_slice so self c = Inr s"
    and "make_slice so self c = Inr s \<Longrightarrow>
           set (keep s) = set c \<and> length (keep s) = length c \<and> is_set (keep s) \<and>
           is_set (exclude s) \<and> set (exclude s) = set (datasets self) - set c"
proof -
  have cs: "is_set c" by (rule combinations_is_set [OF D c])
  have sub: "set c \<subseteq> set (datasets self)" by (rule combinations_subset [OF c])
  have len: "length c = Suc l" by (rule combinations_length [OF c])
  note new = set_new_props [OF ok cs]
  from new(2) len have ne: "set_new so c \<noteq> []" by auto
  from DataSlice_init_total [OF ne] show "\<exists>s. make_slice so self c = Inr s"
    by (simp add: make_slice_def Let_def)
  assume "make_slice so self c = Inr s"
  note init = DataSlice_init_Inr [OF make_slice_Inr [OF this]]
  have "set (set_sub so (datasets self) (set_new so c)) = set (datasets self) - set c"
    using set_sub_set [OF ok D, of "set_new so c"] new(1) sub by simp
  with init new set_sub_is_set [OF ok D, of "set_new so c"]
  show "set (keep s) = set c \<and> length (keep s) = length c \<and> is_set (keep s) \<and>
        is_set (exclude s) \<and> set (exclude s) = set (datasets self) - set c"
    by simp
qed

lemma list_all2_map_eq:
  "list_all2 P xs ys \<Longrightarrow> (\<And>x y. x \<in> set xs \<Longrightarrow> P x y \<Longrightarrow> f x = g y) \<Longrightarrow> map f xs = map g ys"
  by (induction rule: list_all2_induct) auto

lemma slices_shape:
  assumes ok: "set_order_ok so" and D: "is_set (datasets self)"
  defines "cs \<equiv> concat (map (\<lambda>l. combinations (datasets self) (Suc l)) [0..<length (datasets self)])"
  shows "\<exists>ss. slices so self = Inr ss"
    and "slices so self = Inr ss \<Longrightarrow>
           map (\<lambda>s. set (keep s)) ss = map set cs \<and> map (\<lambda>s. length (keep s)) ss = map length cs"
    and "slices so self = Inr ss \<Longrightarrow> s \<in> set ss \<Longrightarrow>
           set (keep s) \<subseteq> set (datasets self) \<and> keep s \<noteq> [] \<and> is_set (keep s) \<and>
           is_set (exclude s) \<and> set (exclude s) = set (datasets self) - set (keep s)"
proof -
  have mem: "\<exists>l. c \<in> set (combinations (datasets self) (Suc l))" if "c \<in> set cs" for c
    using that by (auto simp: cs_def)
  have "\<exists>s. make_slice so self c = Inr s" if "c \<in> set cs" for c
    using mem [OF that] make_slice_shape(1) [OF ok D] by blast
  from mapM_total [of cs "make_slice so self", OF this]
  show "\<exists>ss. slices so self = Inr ss" by (simp add: slices_def cs_def)
  {
    assume ss: "slices so self = Inr ss"
    then have all2: "list_all2 (\<lambda>c s. make_slice so self c = Inr s) cs ss"
      by (simp add: slices_Inr_iff cs_def)
    have shape: "set (keep s) = set c \<and> length (keep s) = length c"
      if "c \<in> set cs" "make_slice so self c = Inr s" for c s
      using mem [OF that(1)] make_slice_shape(2) [OF ok D _ that(2)] by blast
    have "map set cs = map (\<lambda>s. set (keep s)) ss"
      by (rule list_all2_map_eq [OF all2]) (simp add: shape)
    moreover have "map length cs = map (\<lambda>s. length (keep s)) ss"
      by (rule list_all2_map_eq [OF all2]) (simp add: shape)
    ultimately show "map (\<lambda>s. set (keep s)) ss = map set cs \<and> map (\<lambda>s. length (keep s)) ss = map length cs"
      by simp
    assume "s \<in> set ss"
    from slices_member [OF ss this] obtain c where c: "c \<in> set cs" "make_slice so self c = Inr s"
      by (auto simp: cs_def)
    from mem [OF c(1)] obtain l where l: "c \<in> set (combinations (datasets self) (Suc l))" ..
    from make_slice_shape(2) [OF ok D l c(2)] combinations_subset [OF l] combinations_length [OF l]
    show "set (keep s) \<subseteq> set (datasets self) \<and> keep s \<noteq> [] \<and> is_set (keep s) \<and>
           is_set (exclude s) \<and> set (exclude s) = set (datasets self) - set (keep s)"
      by auto
  }
qed

text \<open>
  Claim C2. For a collection of \<open>N\<close> datasets, \<open>slices\<close> raises no exception and
  yields \<open>2 ^ N - 1\<close> slices: for every non-empty subset \<open>S\<close> of the datasets
  exactly one position of the sequence holds a slice that keeps \<open>S\<close>, and that slice
  excludes the complement of \<open>S\<close>; every slice keeps a non-empty subset; the sizes of
  the subsets kept never decrease along the sequence; and an empty collection yields the
  empty sequence.
\<close>

theorem slices_one_per_subset:
  assumes "set_order_ok so" and "is_set (datasets self)"
  shows "\<exists>ss. slices so self = Inr ss
     \<and> length ss = 2 ^ card (set (datasets self)) - 1
     \<and> (\<forall>S. S \<subseteq> set (datasets self) \<and> S \<noteq> {} \<longrightarrow>
            (\<exists>!n. n < length ss \<and> set (keep (ss ! n)) = S \<and>
                   set (exclude (ss ! n)) = set (datasets self) - S))
     \<and> (\<forall>s \<in> set ss. set (keep s) \<subseteq> set (datasets self) \<and> set (keep s) \<noteq> {} \<and>
            set (exclude s) = set (datasets self) - set (keep s))
     \<and> sorted (map (\<lambda>s. card (set (keep s))) ss)
     \<and> (datasets self = [] \<longrightarrow> ss = [])"
proof -
  let ?D = "datasets self"
  let ?cs = "concat (map (\<lambda>l. combinations ?D (Suc l)) [0..<length ?D])"
  have dD: "distinct ?D" by (rule is_set_distinct [OF assms(2)])
  obtain ss where ss: "slices so self = Inr ss"
    using slices_shape(1) [OF assms] by blast
  note maps = slices_shape(2) [OF assms ss]
  note each = slices_shape(3) [OF assms ss]
  from maps have keeps: "map (\<lambda>s. set (keep s)) ss = map set ?cs"
    and lens: "map (\<lambda>s. length (keep s)) ss = map length ?cs" by auto
  have len: "length ss = length ?cs" using keeps by (metis length_map)
  have count: "length ss = 2 ^ card (set ?D) - 1"
    using len subsets_count [of ?D] distinct_card [OF dD] by simp
  have dist: "distinct (map (\<lambda>s. set (keep s)) ss)"
    using subsets_distinct [OF dD, of "length ?D"] keeps by simp
  have sets: "set (map (\<lambda>s. set (keep s)) ss) = {S. S \<subseteq> set ?D \<and> S \<noteq> {}}"
    using subsets_sets [OF dD] keeps by simp
  have one: "\<exists>!n. n < length ss \<and> set (keep (ss ! n)) = S \<and> set (exclude (ss ! n)) = set ?D - S"
    if S: "S \<subseteq> set ?D \<and> S \<noteq> {}" for S
  proof -
    from S sets have "S \<in> set (map (\<lambda>s. set (keep s)) ss)" by simp
    then obtain n where n: "n < length ss" "set (keep (ss ! n)) = S"
      by (auto simp: in_set_conv_nth)
    then have "ss ! n \<in> set ss" by simp
    from each [OF this] n have ex: "set (exclude (ss ! n)) = set ?D - S" by simp
    have uniq: "m = n" if "m < length ss" "set (keep (ss ! m)) = S" for m
      using nth_eq_iff_index_eq [OF dist, of m n] that n by simp
    show ?thesis
    proof (rule ex1I [of _ n])
      show "n < length ss \<and> set (keep (ss ! n)) = S \<and> set (exclude (ss ! n)) = set ?D - S"
        using n ex by simp
    next
      fix m
      assume "m < length ss \<and> set (keep (ss ! m)) = S \<and> set (exclude (ss ! m)) = set ?D - S"
      then show "m = n" using uniq [of m] by simp
    qed
  qed
  have srt: "sorted (map (\<lambda>s. card (set (keep s))) ss)"
  proof -
    have "map (\<lambda>s. card (set (keep s))) ss = map (\<lambda>s. length (keep s)) ss"
      using each by (simp add: is_set_distinct distinct_card)
    with lens subsets_sorted [of ?D "length ?D"] show ?thesis by simp
  qed
  have emp: "ss = []" if "?D = []"
    using len that by simp
  show ?thesis
  proof (intro exI [of _ ss] conjI)
    show "slices so self = Inr ss" by (rule ss)
    show "length ss = 2 ^ card (set ?D) - 1" by (rule count)
    show "\<forall>S. S \<subseteq> set ?D \<and> S \<noteq> {} \<longrightarrow>
            (\<exists>!n. n < length ss \<and> set (keep (ss ! n)) = S \<and> set (exclude (ss ! n)) = set ?D - S)"
      by (intro allI impI) (rule one)
    show "\<forall>s \<in> set ss. set (keep s) \<subseteq> set ?D \<and> set (keep s) \<noteq> {} \<and>
            set (exclude s) = set ?D - set (keep s)"
    proof
      fix s assume "s \<in> set ss"
      from each [OF this] show "set (keep s) \<subseteq> set ?D \<and> set (keep s) \<noteq> {} \<and>
            set (exclude s) = set ?D - set (keep s)" by simp
    qed
    show "sorted (map (\<lambda>s. card (set (keep s))) ss)" by (rule srt)
    show "?D = [] \<longrightarrow> ss = []" using emp by blast
  qed
qed

text \<open>
  Claim C3. For every slice that \<open>slices\<close> yields, \<open>keep\<close> and \<open>exclude\<close> are
  disjoint (as sets of objects, and so by identity), their union is the set of all datasets
  of the collection, and \<open>keep\<close> is not empty.
\<close>

theorem slices_keep_exclude_partition:
  assumes "set_order_ok so" and "is_set (datasets self)"
    and "slices so self = Inr ss" and "s \<in> set ss"
  shows "set (keep s) \<inter> set (exclude s) = {}
       \<and> set (keep s) \<union> set (exclude s) = set (datasets self)
       \<and> keep s \<noteq> []
       \<and> obj_id ` set (keep s) \<inter> obj_id ` set (exclude s) = {}"
proof -
  note each = slices_shape(3) [OF assms]
  have inj: "inj_on obj_id (set (datasets self))" by (rule is_set_inj [OF assms(2)])
  from each have sub: "set (keep s) \<subseteq> set (datasets self)" "set (exclude s) \<subseteq> set (datasets self)"
    and disj: "set (keep s) \<inter> set (exclude s) = {}" by auto
  have "obj_id ` set (keep s) \<inter> obj_id ` set (exclude s) = obj_id ` (set (keep s) \<inter> set (exclude s))"
    by (rule inj_on_image_Int [OF inj sub, symmetric])
  with each disj show ?thesis by auto
qed

subsection \<open>Rows and columns\<close>

text \<open>
  One row of \<open>genes\<close>, when every dataset kept has a record for the id; the ids of a
  slice are such ids.
\<close>

lemma getattr_payload:
  "getattr g ''foldcount'' = Inr (foldcount g)" "getattr g ''p_value'' = Inr (p_value g)"
  by (simp_all add: getattr_def)

lemma gene_row_Inr:
  assumes "\<And>d. d \<in> set (keep s) \<Longrightarrow> fmlookup (genes d) i \<noteq> None"
  shows "gene_row s i =
     Inr ([i, case fmlookup (gene_names (collection s)) i of None \<Rightarrow> [] | Some n \<Rightarrow> n]
          @ map (\<lambda>d. foldcount (the (fmlookup (genes d) i))) (sort_key Dataset.name (keep s))
          @ map (\<lambda>d. p_value (the (fmlookup (genes d) i))) (sort_key Dataset.name (keep s)))"
proof -
  let ?sk = "sort_key Dataset.name (keep s)"
  have look: "\<exists>g. fmlookup (genes d) i = Some g" if "d \<in> set ?sk" for d
    using that assms [of d] by auto
  have fc: "mapM (\<lambda>d. case fmlookup (genes d) i of None \<Rightarrow> Inl KeyError | Some g \<Rightarrow> getattr g ''foldcount'') ?sk
            = Inr (map (\<lambda>d. foldcount (the (fmlookup (genes d) i))) ?sk)"
  proof (rule mapM_map)
    fix d assume "d \<in> set ?sk"
    from look [OF this] obtain g where "fmlookup (genes d) i = Some g" ..
    then show "(case fmlookup (genes d) i of None \<Rightarrow> Inl KeyError | Some g \<Rightarrow> getattr g ''foldcount'')
               = Inr (foldcount (the (fmlookup (genes d) i)))"
      by (simp add: getattr_payload)
  qed
  have pv: "mapM (\<lambda>d. case fmlookup (genes d) i of None \<Rightarrow> Inl KeyError | Some g \<Rightarrow> getattr g ''p_value'') ?sk
            = Inr (map (\<lambda>d. p_value (the (fmlookup (genes d) i))) ?sk)"
  proof (rule mapM_map)
    fix d assume "d \<in> set ?sk"
    from look [OF this] obtain g where "fmlookup (genes d) i = Some g" ..
    then show "(case fmlookup (genes d) i of None \<Rightarrow> Inl KeyError | Some g \<Rightarrow> getattr g ''p_value'')
               = Inr (p_value (the (fmlookup (genes d) i)))"
      by (simp add: getattr_payload)
  qed
  show ?thesis
    by (simp add: gene_row_def Gene_fields_def fc pv)
qed

lemma slice_ids_in_keep:
  assumes "DataSlice_init kp ex c = Inr s" and "\<And>d. d \<in> set kp \<Longrightarrow> Dataset_ok d"
    and "i \<in> set (DataSlice.ids s)" and "d \<in> set (keep s)"
  shows "fmlookup (genes d) i \<noteq> None"
proof -
  from slice_ids(1) [OF assms(1)] assms(3,4) have "i |\<in>| Dataset.ids d" by auto
  moreover from DataSlice_init_Inr(1) [OF assms(1)] assms(2,4) have "Dataset_ok d" by simp
  ultimately show ?thesis by (auto simp: Dataset_ok_def fmlookup_dom_iff)
qed

text \<open>
  Claim C5. For a slice built by the constructor from datasets as their constructor leaves
  them: \<open>fields\<close> is \<open>id\<close>, \<open>iso\<close>, then one column \<open>name foldcount\<close> for each
  dataset kept, in the order of the names, then one column \<open>name p_value\<close> for each, in
  the same order; \<open>genes\<close> raises no exception and yields one row for each id of the
  slice, in the ascending order of \<open>ids\<close>: the id, the display name (the entry of
  \<open>gene_names\<close>, or the empty string when there is none), then the \<open>foldcount\<close> of
  that id in each dataset kept and then the \<open>p_value\<close>, the datasets again in the order
  of their names. Every lookup of an id of the slice in a dataset kept finds a record.
\<close>

theorem fields_and_genes:
  assumes "DataSlice_init kp ex c = Inr s" and "\<forall>d \<in> set kp. Dataset_ok d"
  shows "fields s =
           [''id'', ''iso'']
           @ map (\<lambda>d. Dataset.name d @ '' foldcount'') (sort_key Dataset.name (keep s))
           @ map (\<lambda>d. Dataset.name d @ '' p_value'') (sort_key Dataset.name (keep s))
       \<and> DataSlice_genes s =
           Inr (map (\<lambda>i. [i, case fmlookup (gene_names c) i of None \<Rightarrow> [] | Some n \<Rightarrow> n]
                          @ map (\<lambda>d. foldcount (the (fmlookup (genes d) i)))
                                (sort_key Dataset.name (keep s))
                          @ map (\<lambda>d. p_value (the (fmlookup (genes d) i)))
                                (sort_key Dataset.name (keep s)))
                    (DataSlice.ids s))
       \<and> (\<forall>i \<in> set (DataSlice.ids s). \<forall>d \<in> set (keep s). fmlookup (genes d) i \<noteq> None)
       \<and> sorted (map Dataset.name (sort_key Dataset.name (keep s)))
       \<and> mset (sort_key Dataset.name (keep s)) = mset (keep s)
       \<and> sorted_wrt (<) (DataSlice.ids s)"
proof -
  have f: "fields s =
           [''id'', ''iso'']
           @ map (\<lambda>d. Dataset.name d @ '' foldcount'') (sort_key Dataset.name (keep s))
           @ map (\<lambda>d. Dataset.name d @ '' p_value'') (sort_key Dataset.name (keep s))"
    by (simp add: fields_def Gene_fields_def)
  have look: "fmlookup (genes d) i \<noteq> None" if "i \<in> set (DataSlice.ids s)" "d \<in> set (keep s)" for i d
    using slice_ids_in_keep [OF assms(1) _ that] assms(2) by blast
  have col: "collection s = c" by (rule DataSlice_init_Inr(3) [OF assms(1)])
  have g: "DataSlice_genes s =
           Inr (map (\<lambda>i. [i, case fmlookup (gene_names c) i of None \<Rightarrow> [] | Some n \<Rightarrow> n]
                          @ map (\<lambda>d. foldcount (the (fmlookup (genes d) i)))
                                (sort_key Dataset.name (keep s))
                          @ map (\<lambda>d. p_value (the (fmlookup (genes d) i)))
                                (sort_key Dataset.name (keep s)))
                    (DataSlice.ids s))"
    unfolding DataSlice_genes_def
    by (rule mapM_map) (use look col in \<open>simp add: gene_row_Inr\<close>)
  have srt: "sorted (map Dataset.name (sort_key Dataset.name (keep s)))" by (rule sorted_sort_key)
  have ms: "mset (sort_key Dataset.name (keep s)) = mset (keep s)" by (rule mset_sort)
  from f g look srt ms slice_ids(2) [OF assms(1)] show ?thesis by blast
qed

lemma DataSlice_genes_total:
  assumes "DataSlice_init kp ex c = Inr s" and "\<forall>d \<in> set kp. Dataset_ok d"
  shows "\<exists>rows. DataSlice_genes s = Inr rows"
proof -
  have look: "fmlookup (genes d) i \<noteq> None" if "i \<in> set (DataSlice.ids s)" "d \<in> set (keep s)" for i d
    using slice_ids_in_keep [OF assms(1) _ that] assms(2) by blast
  show ?thesis
    unfolding DataSlice_genes_def
    by (rule mapM_total) (use look in \<open>simp add: gene_row_Inr\<close>)
qed

lemma all_rows_total:
  assumes "set_order_ok so" and "is_set (datasets self)"
    and "\<forall>d \<in> set (datasets self). Dataset_ok d"
  shows "\<exists>ss vs. slices so self = Inr ss \<and> mapM DataSlice_genes ss = Inr vs"
proof -
  obtain ss where ss: "slices so self = Inr ss"
    using slices_shape(1) [OF assms(1,2)] by blast
  have "\<exists>rows. DataSlice_genes s = Inr rows" if s: "s \<in> set ss" for s
  proof -
    from slices_member [OF ss s] obtain c where "make_slice so self c = Inr s" by blast
    note init = make_slice_Inr [OF this]
    from slices_shape(3) [OF assms(1,2) ss s] have "set (keep s) \<subseteq> set (datasets self)" by simp
    with DataSlice_init_Inr(1) [OF init] assms(3)
    have "\<forall>d \<in> set (set_new so c). Dataset_ok d" by auto
    from DataSlice_genes_total [OF init this] show ?thesis .
  qed
  from mapM_total [of ss DataSlice_genes, OF this] ss show ?thesis by blast
qed

subsection \<open>The fixture\<close>

text \<open>
  The hypotheses of the theorems above hold of the fixture, and the functions evaluate on
  it; \<open>test_calc\<close> is the assertion of the unit test of the repository.
\<close>

lemma insertion_order_ok: "set_order_ok insertion_order"
  by (simp add: set_order_ok_def reorders_def insertion_order_def)

lemma Dataset_init_ok: "Dataset_ok (Dataset_init a g n)"
  by (simp add: Dataset_ok_def Dataset_init_def)

lemma test_dataset_ok: "Dataset_ok (test_dataset a rows n)"
  by (simp add: test_dataset_def Dataset_init_ok split: sum.splits prod.splits)

lemma add_is_set:
  "set_order_ok so \<Longrightarrow> is_set (datasets self) \<Longrightarrow> is_set (datasets (add so self d))"
  by (simp add: add_def set_add_is_set)

lemma add_Dataset_ok:
  assumes "set_order_ok so" and "\<forall>x \<in> set (datasets self). Dataset_ok x" and "Dataset_ok d"
  shows "\<forall>x \<in> set (datasets (add so self d)). Dataset_ok x"
proof -
  have r: "reorders (iter_add so)" using assms(1) by (simp add: set_order_ok_def)
  show ?thesis using assms(2,3) by (auto simp: add_def set_add_def reorders_set [OF r])
qed

lemma test_collection_datasets: "datasets test_collection = [test_A, test_B]"
  by (simp add: test_collection_def add_def set_add_def member_def insertion_order_def
      DatasetCollection_init_def test_A_def test_B_def test_dataset_def Dataset_init_def
      split: sum.splits prod.splits)

lemma test_collection_is_set: "is_set (datasets test_collection)"
  unfolding test_collection_def
  by (intro add_is_set insertion_order_ok) (simp add: DatasetCollection_init_def is_set_def)

lemma test_collection_ok: "\<forall>d \<in> set (datasets test_collection). Dataset_ok d"
  by (simp add: test_collection_datasets test_A_def test_B_def test_dataset_ok)

lemma test_slices_ids:
  "map_sum id (map DataSlice.ids) (slices insertion_order test_collection)
     = Inr [[''Delta-ABC-1''], [''Alpha-ABC-1''], [''Beta-DEF-2'']]"
  by code_simp

lemma test_slices_keep:
  "map_sum id (map (\<lambda>s. (map Dataset.name (keep s), map Dataset.name (exclude s))))
      (slices insertion_order test_collection)
     = Inr [([''A''], [''B'']), ([''B''], [''A'']), ([''A'', ''B''], [])]"
  by code_simp

theorem slices_one_per_subset_witness:
  "\<exists>ss. slices insertion_order test_collection = Inr ss \<and> length ss = 3
      \<and> sorted (map (\<lambda>s. card (set (keep s))) ss)"
proof -
  have "card (set (datasets test_collection)) = 2"
    using distinct_card [OF is_set_distinct [OF test_collection_is_set]]
    by (simp add: test_collection_datasets)
  with slices_one_per_subset [OF insertion_order_ok test_collection_is_set]
  show ?thesis by auto
qed

lemma map_sum_Inr_obtain:
  assumes "map_sum id f r = Inr v"
  obtains x where "r = Inr x" and "f x = v"
  using assms by (cases r) auto

lemma length3: "map f xs = [a, b, c] \<Longrightarrow> length xs = 3"
  by (metis length_map length_Cons list.size(3) numeral_3_eq_3)

theorem slice_ids_partition_witness:
  "\<exists>ss. slices insertion_order test_collection = Inr ss
      \<and> map DataSlice.ids ss = [[''Delta-ABC-1''], [''Alpha-ABC-1''], [''Beta-DEF-2'']]
      \<and> set (DataSlice.ids (ss ! 2))
          = (\<Inter>d \<in> set (keep (ss ! 2)). fset (Dataset.ids d))
            - (\<Union>d \<in> set (exclude (ss ! 2)). fset (Dataset.ids d))
      \<and> sorted_wrt (<) (DataSlice.ids (ss ! 2)) \<and> distinct (DataSlice.ids (ss ! 2))"
proof -
  from test_slices_ids obtain ss where ss: "slices insertion_order test_collection = Inr ss"
    and ids: "map DataSlice.ids ss = [[''Delta-ABC-1''], [''Alpha-ABC-1''], [''Beta-DEF-2'']]"
    by (rule map_sum_Inr_obtain)
  from length3 [OF ids] have mem: "ss ! 2 \<in> set ss" by simp
  note th = slice_ids_partition [OF ss mem]
  show ?thesis
  proof (intro exI [of _ ss] conjI)
    show "slices insertion_order test_collection = Inr ss" by (rule ss)
    show "map DataSlice.ids ss = [[''Delta-ABC-1''], [''Alpha-ABC-1''], [''Beta-DEF-2'']]" by (rule ids)
    show "set (DataSlice.ids (ss ! 2))
          = (\<Inter>d \<in> set (keep (ss ! 2)). fset (Dataset.ids d))
            - (\<Union>d \<in> set (exclude (ss ! 2)). fset (Dataset.ids d))"
      using th by (rule conjunct1)
    show "sorted_wrt (<) (DataSlice.ids (ss ! 2))" using th by simp
    show "distinct (DataSlice.ids (ss ! 2))" using th by simp
  qed
qed

theorem slices_keep_exclude_partition_witness:
  "\<exists>ss. slices insertion_order test_collection = Inr ss
      \<and> map (\<lambda>s. (map Dataset.name (keep s), map Dataset.name (exclude s))) ss
            = [([''A''], [''B'']), ([''B''], [''A'']), ([''A'', ''B''], [])]
      \<and> set (keep (ss ! 0)) \<inter> set (exclude (ss ! 0)) = {}
      \<and> set (keep (ss ! 0)) \<union> set (exclude (ss ! 0)) = set (datasets test_collection)
      \<and> keep (ss ! 0) \<noteq> []"
proof -
  from test_slices_keep obtain ss where ss: "slices insertion_order test_collection = Inr ss"
    and kp: "map (\<lambda>s. (map Dataset.name (keep s), map Dataset.name (exclude s))) ss
               = [([''A''], [''B'']), ([''B''], [''A'']), ([''A'', ''B''], [])]"
    by (rule map_sum_Inr_obtain)
  from length3 [OF kp] have mem: "ss ! 0 \<in> set ss" by simp
  note th = slices_keep_exclude_partition [OF insertion_order_ok test_collection_is_set ss mem]
  show ?thesis
  proof (intro exI [of _ ss] conjI)
    show "slices insertion_order test_collection = Inr ss" by (rule ss)
    show "map (\<lambda>s. (map Dataset.name (keep s), map Dataset.name (exclude s))) ss
            = [([''A''], [''B'']), ([''B''], [''A'']), ([''A'', ''B''], [])]" by (rule kp)
    show "set (keep (ss ! 0)) \<inter> set (exclude (ss ! 0)) = {}" using th by (rule conjunct1)
    show "set (keep (ss ! 0)) \<union> set (exclude (ss ! 0)) = set (datasets test_collection)"
      using th by simp
    show "keep (ss ! 0) \<noteq> []" using th by simp
  qed
qed

lemma test_slice_BA_fields:
  "map_sum id fields (DataSlice_init [test_B, test_A] [] test_collection)
     = Inr [''id'', ''iso'', ''A foldcount'', ''B foldcount'', ''A p_value'', ''B p_value'']"
  by code_simp

lemma test_slice_BA_genes:
  "(case DataSlice_init [test_B, test_A] [] test_collection of
      Inl e \<Rightarrow> Inl e | Inr s \<Rightarrow> DataSlice_genes s)
     = Inr [[''Beta-DEF-2'', '''', ''A-Beta-fc'', ''B-Beta-fc'', ''A-Beta-p'', ''B-Beta-p'']]"
  by code_simp

theorem fields_and_genes_witness:
  "\<exists>s. DataSlice_init [test_B, test_A] [] test_collection = Inr s
      \<and> fields s = [''id'', ''iso'', ''A foldcount'', ''B foldcount'', ''A p_value'', ''B p_value'']
      \<and> DataSlice_genes s
          = Inr [[''Beta-DEF-2'', '''', ''A-Beta-fc'', ''B-Beta-fc'', ''A-Beta-p'', ''B-Beta-p'']]
      \<and> fields s =
           [''id'', ''iso'']
           @ map (\<lambda>d. Dataset.name d @ '' foldcount'') (sort_key Dataset.name (keep s))
           @ map (\<lambda>d. Dataset.name d @ '' p_value'') (sort_key Dataset.name (keep s))
      \<and> sorted (map Dataset.name (sort_key Dataset.name (keep s)))"
proof -
  from test_slice_BA_fields obtain s
    where s: "DataSlice_init [test_B, test_A] [] test_collection = Inr s"
      and f: "fields s = [''id'', ''iso'', ''A foldcount'', ''B foldcount'', ''A p_value'', ''B p_value'']"
    by (rule map_sum_Inr_obtain)
  have ok: "\<forall>d \<in> set [test_B, test_A]. Dataset_ok d"
    by (simp add: test_A_def test_B_def test_dataset_ok)
  note th = fields_and_genes [OF s ok]
  from test_slice_BA_genes s
  have g: "DataSlice_genes s
          = Inr [[''Beta-DEF-2'', '''', ''A-Beta-fc'', ''B-Beta-fc'', ''A-Beta-p'', ''B-Beta-p'']]"
    by simp
  show ?thesis
  proof (intro exI [of _ s] conjI)
    show "DataSlice_init [test_B, test_A] [] test_collection = Inr s" by (rule s)
    show "fields s = [''id'', ''iso'', ''A foldcount'', ''B foldcount'', ''A p_value'', ''B p_value'']"
      by (rule f)
    show "DataSlice_genes s
          = Inr [[''Beta-DEF-2'', '''', ''A-Beta-fc'', ''B-Beta-fc'', ''A-Beta-p'', ''B-Beta-p'']]"
      by (rule g)
    show "fields s =
           [''id'', ''iso'']
           @ map (\<lambda>d. Dataset.name d @ '' foldcount'') (sort_key Dataset.name (keep s))
           @ map (\<lambda>d. Dataset.name d @ '' p_value'') (sort_key Dataset.name (keep s))"
      using th by (rule conjunct1)
    show "sorted (map Dataset.name (sort_key Dataset.name (keep s)))" using th by simp
  qed
qed

lemma test_calc:
  "(case slices insertion_order test_collection of
      Inl e \<Rightarrow> Inl e | Inr ss \<Rightarrow> mapM DataSlice_genes ss)
   = Inr [[[''Delta-ABC-1'', '''', ''A-Delta-fc'', ''A-Delta-p'']],
          [[''Alpha-ABC-1'', '''', ''B-Alpha-fc'', ''B-Alpha-p'']],
          [[''Beta-DEF-2'', '''', ''A-Beta-fc'', ''B-Beta-fc'', ''A-Beta-p'', ''B-Beta-p'']]]"
  by code_simp

lemma sum_bind_Inr_obtain:
  assumes "(case r of Inl e \<Rightarrow> Inl e | Inr x \<Rightarrow> f x) = Inr v"
  obtains x where "r = Inr x" and "f x = Inr v"
  using assms by (cases r) auto

text \<open>What the constructor stores as the name, for any order of the two sets.\<close>

lemma slice_name_order:
  assumes "DataSlice_init kp ex c = Inr s"
  shows "DataSlice.name s = ''('' @ join '' & '' (map Dataset.name (keep s)) @ '') - (''
                              @ join '' | '' (map Dataset.name (exclude s)) @ '')''"
  using DataSlice_init_Inr [OF assms] by simp

text \<open>
  Claim C4. The constructor joins the names in the order in which the sets \<open>keep\<close> and
  \<open>exclude\<close> iterate (\<open>slice_name_order\<close>); unlike \<open>fields\<close> and
  \<open>genes\<close>, it does not sort them. For the collection whose set iterates \<open>B\<close> before
  \<open>A\<close>, the slice that keeps both is named \<open>(B & A) - ()\<close>, where the claim has
  \<open>(A & B) - ()\<close>.
\<close>

theorem slice_name_unsorted:
  "map_sum id (map DataSlice.name) (slices insertion_order test_collection_BA)
     = Inr [''(B) - (A)'', ''(A) - (B)'', ''(B & A) - ()'']"
  by code_simp

section \<open>Enumeration over a store\<close>

subsection \<open>Programs that only read\<close>

lemma extends_refl: "extends h h"
  by (simp add: extends_def)

lemma extends_trans: "extends h1 h2 \<Longrightarrow> extends h2 h3 \<Longrightarrow> extends h1 h3"
  by (auto simp: extends_def)

lemma bind_prog_Inr: "m h = (Inr x, h') \<Longrightarrow> bind_prog m f h = f x h'"
  by (simp add: bind_prog_def)

lemma bind_prog_Inl: "m h = (Inl e, h') \<Longrightarrow> bind_prog m f h = (Inl e, h')"
  by (simp add: bind_prog_def)

lemma bind_prog_sum:
  "m h = (r, h') \<Longrightarrow> bind_prog m f h = (case r of Inl e \<Rightarrow> (Inl e, h') | Inr x \<Rightarrow> f x h')"
  by (cases r) (simp_all add: bind_prog_def)

lemma for_prog_extends:
  assumes "\<And>x h1. x \<in> set xs \<Longrightarrow> extends h0 h1 \<Longrightarrow> \<exists>h'. body x h1 = (f x, h') \<and> extends h1 h'"
    and "extends h0 h1"
  shows "\<exists>h'. for_prog body xs h1 = (mapM f xs, h') \<and> extends h1 h'"
  using assms
proof (induction xs arbitrary: h1)
  case Nil
  show ?case by (simp add: return_prog_def extends_refl)
next
  case (Cons x xs)
  from Cons.prems(1) [of x h1] Cons.prems(2)
  obtain h2 where b: "body x h1 = (f x, h2)" and e12: "extends h1 h2" by auto
  have e02: "extends h0 h2" by (rule extends_trans [OF Cons.prems(2) e12])
  show ?case
  proof (cases "f x")
    case (Inl e)
    with b e12 show ?thesis by (auto simp: bind_prog_def)
  next
    case (Inr y)
    have "\<exists>h'. for_prog body xs h2 = (mapM f xs, h') \<and> extends h2 h'"
      by (rule Cons.IH [OF _ e02]) (use Cons.prems(1) in auto)
    then obtain h3 where r: "for_prog body xs h2 = (mapM f xs, h3)" and e23: "extends h2 h3"
      by blast
    have e13: "extends h1 h3" by (rule extends_trans [OF e12 e23])
    show ?thesis
      using b Inr r e13
      by (cases "mapM f xs") (auto simp: bind_prog_def return_prog_def)
  qed
qed

lemma for_prog_read_only:
  assumes "\<And>x. x \<in> set xs \<Longrightarrow> body x h = (f x, h)"
  shows "for_prog body xs h = (mapM f xs, h)"
  using assms
proof (induction xs)
  case Nil
  show ?case by (simp add: return_prog_def)
next
  case (Cons x xs)
  then have b: "body x h = (f x, h)" and r: "for_prog body xs h = (mapM f xs, h)" by auto
  show ?case
    using b r by (cases "f x"; cases "mapM f xs") (auto simp: bind_prog_def return_prog_def)
qed

lemma gene_row_prog_eq: "gene_row_prog s i h = (gene_row (abs_slice h s) i, h)"
proof -
  let ?sk = "sort_key Dataset.name (set_at h (keep_ref s))"
  let ?look = "\<lambda>f d. case fmlookup (genes d) i of
                        None \<Rightarrow> Inl KeyError | Some g \<Rightarrow> getattr g f"
  have inner: "for_prog (\<lambda>d. case fmlookup (genes d) i of
                                   None \<Rightarrow> raise_prog KeyError
                                 | Some g \<Rightarrow> (case getattr g f of
                                               Inl e \<Rightarrow> raise_prog e
                                             | Inr v \<Rightarrow> return_prog v)) ?sk h
               = (mapM (?look f) ?sk, h)" for f
    by (rule for_prog_read_only)
       (auto simp: raise_prog_def return_prog_def split: option.splits sum.splits)
  have outer: "for_prog (\<lambda>f.
               bind_prog (read_set (keep_ref s)) (\<lambda>kp.
                 for_prog (\<lambda>d. case fmlookup (genes d) i of
                                   None \<Rightarrow> raise_prog KeyError
                                 | Some g \<Rightarrow> (case getattr g f of
                                               Inl e \<Rightarrow> raise_prog e
                                             | Inr v \<Rightarrow> return_prog v))
                          (sort_key Dataset.name kp)))
               (drop 2 Gene_fields) h
             = (mapM (\<lambda>f. mapM (?look f) ?sk) (drop 2 Gene_fields), h)"
    by (rule for_prog_read_only) (simp add: bind_prog_def read_set_def inner)
  show ?thesis
    unfolding gene_row_prog_def gene_row_def
    by (simp add: bind_prog_def read_collection_def read_dict_def outer Let_def
        abs_slice_def abs_collection_def return_prog_def split: sum.splits)
qed

lemma genes_prog_eq: "genes_prog s h = (DataSlice_genes (abs_slice h s), h)"
proof -
  have ids: "DataSlice.ids (abs_slice h s) = slice_ids s" by (simp add: abs_slice_def)
  have "for_prog (gene_row_prog s) (slice_ids s) h = (mapM (gene_row (abs_slice h s)) (slice_ids s), h)"
    by (rule for_prog_read_only) (rule gene_row_prog_eq)
  then show ?thesis by (simp add: genes_prog_def DataSlice_genes_def ids)
qed

subsection \<open>Building one slice\<close>

lemma DataSlice_new_eq:
  "DataSlice_new k e c h =
     (case DataSlice_init (set_at h k) (set_at h e) (abs_collection h c) of
        Inl er \<Rightarrow> Inl er
      | Inr s \<Rightarrow> Inr \<lparr>keep_ref = k, exclude_ref = e, slice_name = DataSlice.name s,
                        slice_ids = DataSlice.ids s, collection_ref = c\<rparr>, h)"
  by (simp add: DataSlice_new_def DataSlice_init_def bind_prog_def read_set_def Let_def
      raise_prog_def return_prog_def split: sum.splits)

lemma abs_slice_new:
  assumes "DataSlice_init (set_at h k) (set_at h e) (abs_collection h c) = Inr s"
  shows "abs_slice h \<lparr>keep_ref = k, exclude_ref = e, slice_name = DataSlice.name s,
                       slice_ids = DataSlice.ids s, collection_ref = c\<rparr> = s"
  using DataSlice_init_Inr(1,2,3) [OF assms] by (simp add: abs_slice_def)

lemma new_set_eq:
  "new_set xs h = (Inr (next_addr h),
      h\<lparr>next_addr := Suc (next_addr h), set_at := (set_at h)(next_addr h := xs)\<rparr>)"
  by (simp add: new_set_def)

lemma slice_step:
  assumes wf: "datasets_ref (collection_at h0 self) < next_addr h0"
    and ext: "extends h0 h1"
  shows "\<exists>h'. bind_prog (new_set (set_new so c)) (\<lambda>keep0.
               bind_prog (read_collection self) (\<lambda>c2.
               bind_prog (read_set (datasets_ref c2)) (\<lambda>ds.
               bind_prog (read_set keep0) (\<lambda>kp.
               bind_prog (new_set (set_sub so ds kp)) (\<lambda>exclude0.
               bind_prog (DataSlice_new keep0 exclude0 self) genes_prog))))) h1
          = (case make_slice so (abs_collection h0 self) c of
               Inl e \<Rightarrow> Inl e | Inr s \<Rightarrow> DataSlice_genes s, h')
        \<and> extends h1 h'"
proof -
  let ?C = "abs_collection h0 self"
  let ?r = "datasets_ref (collection_at h0 self)"
  let ?K = "set_new so c"
  let ?E = "set_sub so (datasets ?C) ?K"
  let ?a = "next_addr h1"
  let ?h2 = "h1\<lparr>next_addr := Suc ?a, set_at := (set_at h1)(?a := ?K)\<rparr>"
  let ?h3 = "?h2\<lparr>next_addr := Suc (Suc ?a), set_at := (set_at ?h2)(Suc ?a := ?E)\<rparr>"
  from ext have col: "collection_at h1 = collection_at h0" and dic: "dict_at h1 = dict_at h0"
    and le: "next_addr h0 \<le> ?a" and old: "\<And>r. r < next_addr h0 \<Longrightarrow> set_at h1 r = set_at h0 r"
    by (auto simp: extends_def)
  from wf le have ra: "?r < ?a" by simp
  have D: "set_at h1 ?r = datasets ?C" using old [OF wf] by (simp add: abs_collection_def)
  have C3: "abs_collection ?h3 self = ?C"
    using ra D by (simp add: abs_collection_def col dic)
  have K3: "set_at ?h3 ?a = ?K" by simp
  have E3: "set_at ?h3 (Suc ?a) = ?E" by simp
  have e13: "extends h1 ?h3" by (simp add: extends_def)
  have ms: "make_slice so ?C c = DataSlice_init ?K ?E ?C" by (simp add: make_slice_def Let_def)
  have run: "bind_prog (new_set (set_new so c)) (\<lambda>keep0.
               bind_prog (read_collection self) (\<lambda>c2.
               bind_prog (read_set (datasets_ref c2)) (\<lambda>ds.
               bind_prog (read_set keep0) (\<lambda>kp.
               bind_prog (new_set (set_sub so ds kp)) (\<lambda>exclude0.
               bind_prog (DataSlice_new keep0 exclude0 self) genes_prog))))) h1
        = bind_prog (DataSlice_new ?a (Suc ?a) self) genes_prog ?h3"
    using ra D by (simp add: bind_prog_def new_set_eq read_collection_def read_set_def col)
  show ?thesis
  proof (cases "DataSlice_init ?K ?E ?C")
    case (Inl e)
    then have init: "DataSlice_init (set_at ?h3 ?a) (set_at ?h3 (Suc ?a)) (abs_collection ?h3 self) = Inl e"
      by (simp only: K3 E3 C3)
    have "DataSlice_new ?a (Suc ?a) self ?h3 = (Inl e, ?h3)"
      by (simp only: DataSlice_new_eq init sum.case)
    then have "bind_prog (DataSlice_new ?a (Suc ?a) self) genes_prog ?h3 = (Inl e, ?h3)"
      by (rule bind_prog_Inl)
    with run ms Inl e13 show ?thesis by auto
  next
    case (Inr s)
    let ?obj = "\<lparr>keep_ref = ?a, exclude_ref = Suc ?a, slice_name = DataSlice.name s,
                  slice_ids = DataSlice.ids s, collection_ref = self\<rparr>"
    have init: "DataSlice_init (set_at ?h3 ?a) (set_at ?h3 (Suc ?a)) (abs_collection ?h3 self) = Inr s"
      using Inr by (simp only: K3 E3 C3)
    have "DataSlice_new ?a (Suc ?a) self ?h3 = (Inr ?obj, ?h3)"
      by (simp only: DataSlice_new_eq init sum.case)
    then have "bind_prog (DataSlice_new ?a (Suc ?a) self) genes_prog ?h3 = genes_prog ?obj ?h3"
      by (rule bind_prog_Inr)
    also have "\<dots> = (DataSlice_genes (abs_slice ?h3 ?obj), ?h3)" by (rule genes_prog_eq)
    also have "abs_slice ?h3 ?obj = s" by (rule abs_slice_new [OF init])
    finally have "bind_prog (DataSlice_new ?a (Suc ?a) self) genes_prog ?h3 = (DataSlice_genes s, ?h3)" .
    with run ms Inr e13 show ?thesis by auto
  qed
qed

subsection \<open>The whole enumeration\<close>

lemma mapM_append:
  "mapM g (xs @ ys) =
     (case mapM g xs of
        Inl e \<Rightarrow> Inl e
      | Inr a \<Rightarrow> (case mapM g ys of Inl e \<Rightarrow> Inl e | Inr b \<Rightarrow> Inr (a @ b)))"
  by (induction xs) (auto split: sum.splits)

lemma mapM_concat:
  "mapM g (concat xss) = (case mapM (mapM g) xss of Inl e \<Rightarrow> Inl e | Inr rs \<Rightarrow> Inr (concat rs))"
  by (induction xss) (auto simp: mapM_append split: sum.splits)

lemma mapM_of_map: "mapM f (map k xs) = mapM (\<lambda>x. f (k x)) xs"
  by (induction xs) (auto split: sum.splits)

lemma mapM_then:
  "mapM f xs = Inr ys \<Longrightarrow> mapM g ys = Inr zs \<Longrightarrow>
   mapM (\<lambda>x. case f x of Inl e \<Rightarrow> Inl e | Inr y \<Rightarrow> g y) xs = Inr zs"
proof (induction xs arbitrary: ys zs)
  case Nil
  then show ?case by auto
next
  case (Cons x xs)
  from Cons.prems(1) obtain y ys' where y: "f x = Inr y" "mapM f xs = Inr ys'" "ys = y # ys'"
    by (auto split: sum.splits)
  with Cons.prems(2) obtain z zs' where z: "g y = Inr z" "mapM g ys' = Inr zs'" "zs = z # zs'"
    by (auto split: sum.splits)
  from Cons.IH [OF y(2) z(2)] y z show ?case by simp
qed

lemma slices_prog_result:
  assumes wf: "datasets_ref (collection_at h0 self) < next_addr h0"
    and ext: "extends h0 h1"
  shows "\<exists>h'. slices_prog so self genes_prog h1
           = (mapM (\<lambda>c. case make_slice so (abs_collection h0 self) c of
                            Inl e \<Rightarrow> Inl e | Inr s \<Rightarrow> DataSlice_genes s)
                   (concat (map (\<lambda>l. combinations (datasets (abs_collection h0 self)) (Suc l))
                                [0..<length (datasets (abs_collection h0 self))])), h')
        \<and> extends h1 h'"
proof -
  let ?C = "abs_collection h0 self"
  let ?D = "datasets ?C"
  let ?G = "\<lambda>c. case make_slice so ?C c of Inl e \<Rightarrow> Inl e | Inr s \<Rightarrow> DataSlice_genes s"
  let ?step = "\<lambda>c. bind_prog (new_set (set_new so c)) (\<lambda>keep0.
               bind_prog (read_collection self) (\<lambda>c2.
               bind_prog (read_set (datasets_ref c2)) (\<lambda>ds.
               bind_prog (read_set keep0) (\<lambda>kp.
               bind_prog (new_set (set_sub so ds kp)) (\<lambda>exclude0.
               bind_prog (DataSlice_new keep0 exclude0 self) genes_prog)))))"
  let ?body = "\<lambda>l. bind_prog (read_collection self) (\<lambda>c1.
          bind_prog (read_set (datasets_ref c1)) (\<lambda>pool.
            for_prog ?step (combinations pool (Suc l))))"
  have reads: "collection_at h self = collection_at h0 self
             \<and> set_at h (datasets_ref (collection_at h0 self)) = ?D" if "extends h0 h" for h
    using that wf by (auto simp: extends_def abs_collection_def)
  have body: "\<exists>h'. ?body l h = (mapM ?G (combinations ?D (Suc l)), h') \<and> extends h h'"
    if e: "extends h0 h" for l h
  proof -
    have "\<exists>h'. for_prog ?step (combinations ?D (Suc l)) h = (mapM ?G (combinations ?D (Suc l)), h')
               \<and> extends h h'"
      by (rule for_prog_extends [OF _ e]) (rule slice_step [OF wf])
    then show ?thesis
      using reads [OF e] by (simp add: bind_prog_def read_collection_def read_set_def)
  qed
  have "\<exists>h'. for_prog ?body [0..<length ?D] h1
             = (mapM (\<lambda>l. mapM ?G (combinations ?D (Suc l))) [0..<length ?D], h') \<and> extends h1 h'"
    by (rule for_prog_extends [OF _ ext]) (rule body)
  then obtain h' where loop: "for_prog ?body [0..<length ?D] h1
             = (mapM (\<lambda>l. mapM ?G (combinations ?D (Suc l))) [0..<length ?D], h')"
    and e: "extends h1 h'" by blast
  have pure: "mapM ?G (concat (map (\<lambda>l. combinations ?D (Suc l)) [0..<length ?D]))
        = (case mapM (\<lambda>l. mapM ?G (combinations ?D (Suc l))) [0..<length ?D] of
             Inl e \<Rightarrow> Inl e | Inr rs \<Rightarrow> Inr (concat rs))"
    by (simp only: mapM_concat mapM_of_map)
  have "slices_prog so self genes_prog h1
        = bind_prog (for_prog ?body [0..<length ?D]) (\<lambda>rs. return_prog (concat rs)) h1"
    using reads [OF ext] by (simp add: slices_prog_def bind_prog_def read_collection_def read_set_def)
  also have "\<dots> = (case mapM (\<lambda>l. mapM ?G (combinations ?D (Suc l))) [0..<length ?D] of
             Inl e \<Rightarrow> Inl e | Inr rs \<Rightarrow> Inr (concat rs), h')"
    using loop by (simp add: bind_prog_def return_prog_def split: sum.splits)
  finally show ?thesis using pure e by auto
qed

lemma consume_prog_result:
  assumes "set_order_ok so"
    and wf: "datasets_ref (collection_at h0 self) < next_addr h0"
    and "is_set (set_at h0 (datasets_ref (collection_at h0 self)))"
    and "\<forall>d \<in> set (set_at h0 (datasets_ref (collection_at h0 self))). Dataset_ok d"
  shows "\<exists>ss vs. slices so (abs_collection h0 self) = Inr ss \<and> mapM DataSlice_genes ss = Inr vs \<and>
           (\<forall>h1. extends h0 h1 \<longrightarrow>
              (\<exists>h'. consume_prog so self h1 = (Inr (set vs), h') \<and> extends h1 h'))"
proof -
  let ?C = "abs_collection h0 self"
  have D: "datasets ?C = set_at h0 (datasets_ref (collection_at h0 self))"
    by (simp add: abs_collection_def)
  from all_rows_total [of so ?C] assms(1,3,4) obtain ss vs
    where ss: "slices so ?C = Inr ss" and vs: "mapM DataSlice_genes ss = Inr vs"
    unfolding D by blast
  from ss have "mapM (make_slice so ?C)
      (concat (map (\<lambda>l. combinations (datasets ?C) (Suc l)) [0..<length (datasets ?C)])) = Inr ss"
    by (simp add: slices_def)
  from mapM_then [OF this vs]
  have rows: "mapM (\<lambda>c. case make_slice so ?C c of Inl e \<Rightarrow> Inl e | Inr s \<Rightarrow> DataSlice_genes s)
      (concat (map (\<lambda>l. combinations (datasets ?C) (Suc l)) [0..<length (datasets ?C)])) = Inr vs" .
  have "\<exists>h'. consume_prog so self h1 = (Inr (set vs), h') \<and> extends h1 h'" if "extends h0 h1" for h1
  proof -
    from slices_prog_result [OF wf that, of so] rows
    obtain h' where "slices_prog so self genes_prog h1 = (Inr vs, h')" and "extends h1 h'"
      by auto
    then show ?thesis by (auto simp: consume_prog_def bind_prog_def return_prog_def)
  qed
  with ss vs show ?thesis by blast
qed

text \<open>
  Claim C9. Take a store in which the set of datasets of the collection exists (its
  reference is below \<open>next_addr\<close>), holds no object twice and holds datasets as their
  constructor leaves them. Consuming \<open>slices\<close> and the \<open>genes\<close> of every slice raises no
  exception and leaves every object that existed before as it was: each collection object,
  each name mapping and each set, so the set of datasets and the name mapping of the
  collection. Consuming a second time, from the store the first run leaves (which holds the
  sets the first run created), gives the same set of results and again changes no object
  that existed before.
\<close>

theorem consume_prog_restartable:
  assumes "set_order_ok so"
    and "datasets_ref (collection_at h self) < next_addr h"
    and "is_set (set_at h (datasets_ref (collection_at h self)))"
    and "\<forall>d \<in> set (set_at h (datasets_ref (collection_at h self))). Dataset_ok d"
  shows "\<exists>v h1 h2.
           consume_prog so self h = (Inr v, h1) \<and> consume_prog so self h1 = (Inr v, h2)
         \<and> collection_at h1 = collection_at h \<and> dict_at h1 = dict_at h
         \<and> (\<forall>r < next_addr h. set_at h1 r = set_at h r)
         \<and> collection_at h2 = collection_at h \<and> dict_at h2 = dict_at h
         \<and> (\<forall>r < next_addr h. set_at h2 r = set_at h r)"
proof -
  from consume_prog_result [OF assms] obtain vs
    where run: "\<And>h1. extends h h1 \<Longrightarrow> \<exists>h'. consume_prog so self h1 = (Inr (set vs), h') \<and> extends h1 h'"
    by blast
  from run [OF extends_refl] obtain h1
    where r1: "consume_prog so self h = (Inr (set vs), h1)" and e1: "extends h h1" by blast
  from run [OF e1] obtain h2
    where r2: "consume_prog so self h1 = (Inr (set vs), h2)" and e12: "extends h1 h2" by blast
  have e2: "extends h h2" by (rule extends_trans [OF e1 e12])
  from e1 have f1: "collection_at h1 = collection_at h" "dict_at h1 = dict_at h"
    "\<forall>r < next_addr h. set_at h1 r = set_at h r" by (simp_all add: extends_def)
  from e2 have f2: "collection_at h2 = collection_at h" "dict_at h2 = dict_at h"
    "\<forall>r < next_addr h. set_at h2 r = set_at h r" by (simp_all add: extends_def)
  from r1 r2 f1 f2 show ?thesis by (intro exI [of _ "set vs"] exI [of _ h1] exI [of _ h2] conjI)
qed

lemma test_heap_rows:
  "fst (slices_prog insertion_order 0 genes_prog test_heap) =
     Inr [[[''Delta-ABC-1'', '''', ''A-Delta-fc'', ''A-Delta-p'']],
          [[''Alpha-ABC-1'', '''', ''B-Alpha-fc'', ''B-Alpha-p'']],
          [[''Beta-DEF-2'', '''', ''A-Beta-fc'', ''B-Beta-fc'', ''A-Beta-p'', ''B-Beta-p'']]]"
  by code_simp

lemma test_heap_next_addr:
  "next_addr (snd (slices_prog insertion_order 0 genes_prog test_heap)) = 7"
  by code_simp

theorem consume_prog_restartable_witness:
  "\<exists>v h1 h2.
      consume_prog insertion_order 0 test_heap = (Inr v, h1)
    \<and> consume_prog insertion_order 0 h1 = (Inr v, h2)
    \<and> v = {[[''Delta-ABC-1'', '''', ''A-Delta-fc'', ''A-Delta-p'']],
            [[''Alpha-ABC-1'', '''', ''B-Alpha-fc'', ''B-Alpha-p'']],
            [[''Beta-DEF-2'', '''', ''A-Beta-fc'', ''B-Beta-fc'', ''A-Beta-p'', ''B-Beta-p'']]}
    \<and> next_addr test_heap = 1 \<and> next_addr h1 = 7
    \<and> set_at h1 0 = datasets test_collection \<and> set_at h2 0 = datasets test_collection
    \<and> dict_at h1 = dict_at test_heap \<and> collection_at h1 = collection_at test_heap"
proof -
  have a2: "datasets_ref (collection_at test_heap 0) < next_addr test_heap"
    by (simp add: test_heap_def)
  have D: "set_at test_heap (datasets_ref (collection_at test_heap 0)) = datasets test_collection"
    by (simp add: test_heap_def)
  have a3: "is_set (set_at test_heap (datasets_ref (collection_at test_heap 0)))"
    unfolding D by (rule test_collection_is_set)
  have a4: "\<forall>d \<in> set (set_at test_heap (datasets_ref (collection_at test_heap 0))). Dataset_ok d"
    unfolding D by (rule test_collection_ok)
  from consume_prog_restartable [OF insertion_order_ok a2 a3 a4]
  obtain v h1 h2 where r1: "consume_prog insertion_order 0 test_heap = (Inr v, h1)"
    and r2: "consume_prog insertion_order 0 h1 = (Inr v, h2)"
    and f1: "collection_at h1 = collection_at test_heap" "dict_at h1 = dict_at test_heap"
            "\<forall>r < next_addr test_heap. set_at h1 r = set_at test_heap r"
    and f2: "\<forall>r < next_addr test_heap. set_at h2 r = set_at test_heap r"
    by blast
  have n: "next_addr test_heap = 1" by (simp add: test_heap_def)
  have s0: "set_at test_heap 0 = datasets test_collection" by (simp add: test_heap_def)
  from f1(3) n s0 have s1: "set_at h1 0 = datasets test_collection" by simp
  from f2 n s0 have s2: "set_at h2 0 = datasets test_collection" by simp
  obtain rs h where run: "slices_prog insertion_order 0 genes_prog test_heap = (rs, h)"
    by (cases "slices_prog insertion_order 0 genes_prog test_heap") auto
  from test_heap_rows run
  have rs: "rs = Inr [[[''Delta-ABC-1'', '''', ''A-Delta-fc'', ''A-Delta-p'']],
          [[''Alpha-ABC-1'', '''', ''B-Alpha-fc'', ''B-Alpha-p'']],
          [[''Beta-DEF-2'', '''', ''A-Beta-fc'', ''B-Beta-fc'', ''A-Beta-p'', ''B-Beta-p'']]]"
    by simp
  from test_heap_next_addr run have nh: "next_addr h = 7" by simp
  from run rs have c: "consume_prog insertion_order 0 test_heap
      = (Inr {[[''Delta-ABC-1'', '''', ''A-Delta-fc'', ''A-Delta-p'']],
            [[''Alpha-ABC-1'', '''', ''B-Alpha-fc'', ''B-Alpha-p'']],
            [[''Beta-DEF-2'', '''', ''A-Beta-fc'', ''B-Beta-fc'', ''A-Beta-p'', ''B-Beta-p'']]}, h)"
    by (simp add: consume_prog_def bind_prog_def return_prog_def)
  with r1 have v: "v = {[[''Delta-ABC-1'', '''', ''A-Delta-fc'', ''A-Delta-p'']],
            [[''Alpha-ABC-1'', '''', ''B-Alpha-fc'', ''B-Alpha-p'']],
            [[''Beta-DEF-2'', '''', ''A-Beta-fc'', ''B-Beta-fc'', ''A-Beta-p'', ''B-Beta-p'']]}"
    and hh: "h1 = h" by simp_all
  from nh hh have n1: "next_addr h1 = 7" by simp
  from r1 r2 v n n1 s1 s2 f1(2) f1(1) show ?thesis
    by (intro exI [of _ v] exI [of _ h1] exI [of _ h2] conjI)
qed

text \<open>
  The hypothesis that the set of datasets exists in the store is needed: in a store whose
  \<open>next_addr\<close> is still at the reference of that set, the first set that \<open>slices\<close>
  creates takes its place.
\<close>

lemma unallocated_set_overwritten:
  "map Dataset.name (set_at test_heap 0) = [''A'', ''B'']
   \<and> map Dataset.name
        (set_at (snd (consume_prog insertion_order 0 (test_heap\<lparr>next_addr := 0\<rparr>))) 0)
       = [''A'']"
  by code_simp

end
